theory Spec2Isabelle
  imports Main "HOL-Library.AList" "HOL-Library.Multiset" "HOL-Library.Option_ord"
begin

section \<open>JavaScript values\<close>

text \<open>
  The survey backend exists in three versions: \<^verbatim>\<open>src/server.js\<close> holds the SQLite server
  followed by a MongoDB server whose \<^verbatim>\<open>finally\<close> blocks guard the closing of the
  connection, and \<^verbatim>\<open>src/unnamed/part_000\<close> holds a MongoDB server that closes the connection
  unguarded. All three register \<^verbatim>\<open>POST /api/submit\<close> and \<^verbatim>\<open>GET /api/results\<close>.

  A request body parsed by \<^verbatim>\<open>express.json()\<close> is a JSON object. JSON values are the
  datatype \<open>json\<close>; numbers are the integer-valued ones (fractions and exponents are outside
  this model), strings are lists of 8-bit characters, and an object is an association list
  in property order, the first binding of a key being the property.
\<close>

datatype json =
    JNull
  | JBool bool
  | JNum int
  | JStr string
  | JArr "json list"
  | JObj "(string \<times> json) list"

type_synonym payload = "(string \<times> json) list"

text \<open>
  Reading a property of the body, \<^verbatim>\<open>data.k\<close>, gives a JSON value or \<^verbatim>\<open>undefined\<close>: it is
  \<open>map_of data k\<close>, with \<open>None\<close> for \<^verbatim>\<open>undefined\<close>. The documents of the MongoDB
  collection and the rows sent to the client also hold dates and object ids.
\<close>

datatype jsval =
    Undefined
  | Json json
  | Date int
  | ObjectId string

type_synonym obj = "(string \<times> jsval) list"

fun js :: "json option \<Rightarrow> jsval" where
  "js None = Undefined"
| "js (Some v) = Json v"

definition get_prop :: "obj \<Rightarrow> string \<Rightarrow> jsval" where
  "get_prop ob k = (case map_of ob k of None \<Rightarrow> Undefined | Some v \<Rightarrow> v)"

text \<open>The object spread \<^verbatim>\<open>{...data}\<close>: the properties of the body, in order.\<close>

definition spread :: "payload \<Rightarrow> obj" where
  "spread data = map (\<lambda>(k, v). (k, Json v)) data"

text \<open>Truthiness, as \<^verbatim>\<open>x ? a : b\<close> and \<^verbatim>\<open>x || y\<close> test it.\<close>

fun truthy :: "json option \<Rightarrow> bool" where
  "truthy None = False"
| "truthy (Some JNull) = False"
| "truthy (Some (JBool b)) = b"
| "truthy (Some (JNum n)) = (n \<noteq> 0)"
| "truthy (Some (JStr s)) = (s \<noteq> [])"
| "truthy (Some (JArr xs)) = True"
| "truthy (Some (JObj ms)) = True"

fun isArray :: "json option \<Rightarrow> bool" where
  "isArray (Some (JArr xs)) = True"
| "isArray v = False"

subsection \<open>Conversion to string\<close>

definition digit_char :: "nat \<Rightarrow> char" where
  "digit_char d = char_of (48 + d)"

function nat_digits :: "nat \<Rightarrow> string" where
  "nat_digits n = (if n < 10 then [digit_char n] else nat_digits (n div 10) @ [digit_char (n mod 10)])"
  by pat_completeness auto
termination
  by (relation "measure (\<lambda>n. n)") auto

declare nat_digits.simps [simp del]

definition show_int :: "int \<Rightarrow> string" where
  "show_int i = (if i < 0 then CHR ''-'' # nat_digits (nat (- i)) else nat_digits (nat i))"

fun join :: "string \<Rightarrow> string list \<Rightarrow> string" where
  "join sep [] = []"
| "join sep [x] = x"
| "join sep (x # y # ys) = x @ sep @ join sep (y # ys)"

text \<open>
  \<^verbatim>\<open>String(v)\<close> for a JSON value: an array is its elements joined by commas, \<^verbatim>\<open>null\<close>
  elements giving the empty string; an object is \<^verbatim>\<open>[object Object]\<close>.
\<close>

fun ToString :: "json \<Rightarrow> string" where
  "ToString JNull = ''null''"
| "ToString (JBool b) = (if b then ''true'' else ''false'')"
| "ToString (JNum n) = show_int n"
| "ToString (JStr s) = s"
| "ToString (JArr xs) = join '','' (map (\<lambda>x. if x = JNull then [] else ToString x) xs)"
| "ToString (JObj ms) = ''[object Object]''"

fun String_js :: "json option \<Rightarrow> string" where
  "String_js None = ''undefined''"
| "String_js (Some v) = ToString v"

text \<open>\<^verbatim>\<open>toLowerCase\<close> on the ASCII letters; other characters are left as they are.\<close>

definition lower_char :: "char \<Rightarrow> char" where
  "lower_char c = (let n = (of_char c :: nat) in if 65 \<le> n \<and> n \<le> 90 then char_of (n + 32) else c)"

definition toLowerCase :: "string \<Rightarrow> string" where
  "toLowerCase s = map lower_char s"

section \<open>JSON text\<close>

text \<open>
  The SQLite server keeps \<^verbatim>\<open>q1_c\<close> as JSON text: \<^verbatim>\<open>JSON.stringify\<close> writes it and
  \<^verbatim>\<open>JSON.parse\<close> reads it back. \<^verbatim>\<open>JSON.stringify\<close> writes no white space and escapes
  the quote, the backslash and the control characters of a string.
\<close>

definition dq :: char where
  "dq = CHR 0x22"

definition bsl :: char where
  "bsl = CHR 0x5C"

definition hex_char :: "nat \<Rightarrow> char" where
  "hex_char d = (if d < 10 then char_of (48 + d) else char_of (87 + d))"

definition escape_char :: "char \<Rightarrow> string" where
  "escape_char c =
     (let n = (of_char c :: nat) in
      if c = dq then [bsl, dq]
      else if c = bsl then [bsl, bsl]
      else if n = 8 then [bsl, CHR ''b'']
      else if n = 12 then [bsl, CHR ''f'']
      else if n = 10 then [bsl, CHR ''n'']
      else if n = 13 then [bsl, CHR ''r'']
      else if n = 9 then [bsl, CHR ''t'']
      else if n < 32 then [bsl, CHR ''u'', CHR ''0'', CHR ''0'', hex_char (n div 16), hex_char (n mod 16)]
      else [c])"

definition quote :: "string \<Rightarrow> string" where
  "quote s = dq # concat (map escape_char s) @ [dq]"

fun JSON_stringify :: "json \<Rightarrow> string" where
  "JSON_stringify JNull = ''null''"
| "JSON_stringify (JBool b) = (if b then ''true'' else ''false'')"
| "JSON_stringify (JNum n) = show_int n"
| "JSON_stringify (JStr s) = quote s"
| "JSON_stringify (JArr xs) = ''['' @ join '','' (map JSON_stringify xs) @ '']''"
| "JSON_stringify (JObj ms) =
     ''{'' @ join '','' (map (\<lambda>m. quote (fst m) @ '':'' @ JSON_stringify (snd m)) ms) @ ''}''"

text \<open>
  \<^verbatim>\<open>JSON.parse\<close>, a recursive descent over the text; \<open>None\<close> is its \<^verbatim>\<open>SyntaxError\<close>.
  Numbers are the integer literals; an escape \<^verbatim>\<open>\uXXXX\<close> beyond the 8-bit characters is
  outside this model and refused.
\<close>

definition is_ws :: "char \<Rightarrow> bool" where
  "is_ws c \<longleftrightarrow> c = CHR 0x20 \<or> c = CHR 0x09 \<or> c = CHR 0x0A \<or> c = CHR 0x0D"

definition skip_ws :: "string \<Rightarrow> string" where
  "skip_ws s = dropWhile is_ws s"

definition is_digit :: "char \<Rightarrow> bool" where
  "is_digit c \<longleftrightarrow> 48 \<le> (of_char c :: nat) \<and> (of_char c :: nat) \<le> 57"

definition digit_val :: "char \<Rightarrow> nat" where
  "digit_val c = of_char c - 48"

definition digits_val :: "string \<Rightarrow> nat" where
  "digits_val ds = foldl (\<lambda>a c. 10 * a + digit_val c) 0 ds"

definition hex_val :: "char \<Rightarrow> nat option" where
  "hex_val c =
     (let n = (of_char c :: nat) in
      if 48 \<le> n \<and> n \<le> 57 then Some (n - 48)
      else if 97 \<le> n \<and> n \<le> 102 then Some (n - 87)
      else if 65 \<le> n \<and> n \<le> 70 then Some (n - 55)
      else None)"

definition simple_escape :: "char \<Rightarrow> char option" where
  "simple_escape e =
     (if e = dq then Some dq
      else if e = bsl then Some bsl
      else if e = CHR ''/'' then Some CHR ''/''
      else if e = CHR ''b'' then Some (CHR 0x08)
      else if e = CHR ''f'' then Some (CHR 0x0C)
      else if e = CHR ''n'' then Some (CHR 0x0A)
      else if e = CHR ''r'' then Some (CHR 0x0D)
      else if e = CHR ''t'' then Some (CHR 0x09)
      else None)"

definition unicode_escape :: "string \<Rightarrow> (char \<times> string) option" where
  "unicode_escape s =
     (case s of
        h1 # h2 # h3 # h4 # r \<Rightarrow>
          (case (hex_val h1, hex_val h2, hex_val h3, hex_val h4) of
             (Some a, Some b, Some c, Some d) \<Rightarrow>
               (let n = ((a * 16 + b) * 16 + c) * 16 + d in
                if n < 256 then Some (char_of n, r) else None)
           | _ \<Rightarrow> None)
      | _ \<Rightarrow> None)"

text \<open>The characters of a string after its opening quote, up to the closing one.\<close>

function unescape :: "string \<Rightarrow> (string \<times> string) option" where
  "unescape [] = None"
| "unescape (c # cs) =
     (if c = dq then Some ([], cs)
      else if c = bsl then
        (case cs of
           [] \<Rightarrow> None
         | e # cs' \<Rightarrow>
             if e = CHR ''u'' then
               (case unicode_escape cs' of
                  Some (x, r) \<Rightarrow>
                    (if length r < length cs' then map_option (apfst ((#) x)) (unescape r) else None)
                | None \<Rightarrow> None)
             else
               (case simple_escape e of
                  Some x \<Rightarrow> map_option (apfst ((#) x)) (unescape cs')
                | None \<Rightarrow> None))
      else if (of_char c :: nat) < 32 then None
      else map_option (apfst ((#) c)) (unescape cs))"
  by pat_completeness auto
termination
  by (relation "measure length") auto

definition parse_number :: "string \<Rightarrow> (int \<times> string) option" where
  "parse_number s =
     (let neg = (case s of [] \<Rightarrow> False | c # r \<Rightarrow> c = CHR ''-'');
          r = (if neg then tl s else s)
      in case r of
           [] \<Rightarrow> None
         | c # cs \<Rightarrow>
             if c = CHR ''0'' then Some (0, cs)
             else if is_digit c then
               (let n = int (digits_val (takeWhile is_digit r))
                in Some (if neg then - n else n, dropWhile is_digit r))
             else None)"

text \<open>A repeated key of an object keeps its first position and its last value.\<close>

definition members_obj :: "(string \<times> json) list \<Rightarrow> json" where
  "members_obj ms = JObj (foldl (\<lambda>acc m. AList.update (fst m) (snd m) acc) [] ms)"

fun parse_value :: "nat \<Rightarrow> string \<Rightarrow> (json \<times> string) option"
  and parse_elems :: "nat \<Rightarrow> string \<Rightarrow> (json list \<times> string) option"
  and parse_members :: "nat \<Rightarrow> string \<Rightarrow> ((string \<times> json) list \<times> string) option" where
  "parse_value 0 s = None"
| "parse_value (Suc n) s =
     (case skip_ws s of
        [] \<Rightarrow> None
      | c # cs \<Rightarrow>
          if c = dq then map_option (apfst JStr) (unescape cs)
          else if c = CHR ''['' then
            (case skip_ws cs of
               [] \<Rightarrow> None
             | c' # r \<Rightarrow>
                 if c' = CHR '']'' then Some (JArr [], r)
                 else map_option (apfst JArr) (parse_elems n cs))
          else if c = CHR ''{'' then
            (case skip_ws cs of
               [] \<Rightarrow> None
             | c' # r \<Rightarrow>
                 if c' = CHR ''}'' then Some (JObj [], r)
                 else map_option (apfst members_obj) (parse_members n cs))
          else if take 4 (c # cs) = ''null'' then Some (JNull, drop 4 (c # cs))
          else if take 4 (c # cs) = ''true'' then Some (JBool True, drop 4 (c # cs))
          else if take 5 (c # cs) = ''false'' then Some (JBool False, drop 5 (c # cs))
          else map_option (apfst JNum) (parse_number (c # cs)))"
| "parse_elems 0 s = None"
| "parse_elems (Suc n) s =
     (case parse_value n s of
        None \<Rightarrow> None
      | Some (v, r) \<Rightarrow>
          (case skip_ws r of
             [] \<Rightarrow> None
           | c # r' \<Rightarrow>
               if c = CHR '']'' then Some ([v], r')
               else if c = CHR '','' then map_option (apfst ((#) v)) (parse_elems n r')
               else None))"
| "parse_members 0 s = None"
| "parse_members (Suc n) s =
     (case skip_ws s of
        [] \<Rightarrow> None
      | c # cs \<Rightarrow>
          if c = dq then
            (case unescape cs of
               None \<Rightarrow> None
             | Some (k, r) \<Rightarrow>
                 (case skip_ws r of
                    [] \<Rightarrow> None
                  | c2 # r2 \<Rightarrow>
                      if c2 = CHR '':'' then
                        (case parse_value n r2 of
                           None \<Rightarrow> None
                         | Some (v, r3) \<Rightarrow>
                             (case skip_ws r3 of
                                [] \<Rightarrow> None
                              | c3 # r4 \<Rightarrow>
                                  if c3 = CHR ''}'' then Some ([(k, v)], r4)
                                  else if c3 = CHR '','' then
                                    map_option (apfst ((#) (k, v))) (parse_members n r4)
                                  else None))
                      else None))
          else None)"

text \<open>
  Every call above consumes a character before the next one two levels down, so twice the
  length of the text is fuel enough (\<open>JSON_parse_any_fuel\<close> below).
\<close>

definition JSON_parse :: "string \<Rightarrow> json option" where
  "JSON_parse s =
     (case parse_value (2 * length s + 2) s of
        None \<Rightarrow> None
      | Some (v, r) \<Rightarrow> if skip_ws r = [] then Some v else None)"

section \<open>Responses\<close>

datatype resp_body = BObject obj | BArray "obj list"

record response =
  status :: nat
  body :: resp_body

text \<open>
  What a handler leaves behind: the response it sent, the message of an error that escaped
  it (a rejected promise nobody handles), and the store afterwards.
\<close>

record 's outcome =
  sent :: response
  unhandled :: "string option"
  db_after :: 's

definition message_body :: "string \<Rightarrow> resp_body" where
  "message_body m = BObject [(''message'', Json (JStr m))]"

definition submitted_body :: "jsval \<Rightarrow> resp_body" where
  "submitted_body i = BObject [(''message'', Json (JStr ''Survey submitted successfully!'')), (''id'', i)]"

section \<open>The MongoDB servers\<close>

text \<open>
  The collaborator of one request: whether connecting, the operation (insert or find) and
  closing fail, and with which message; the server's clock in milliseconds; the object id
  the driver generates for a document that brings none.
\<close>

record menv =
  connect_fault :: "string option"
  op_fault :: "string option"
  close_fault :: "string option"
  now :: int
  fresh_oid :: string

text \<open>
  \<^verbatim>\<open>q1_c: Array.isArray(data.q1_c) ? data.q1_c : (data.q1_c ? [data.q1_c] : [])\<close>
\<close>

definition wrap_q1_c :: "json option \<Rightarrow> json" where
  "wrap_q1_c v =
     (if isArray v then (case v of Some a \<Rightarrow> a | None \<Rightarrow> JArr [])
      else if truthy v then (case v of Some x \<Rightarrow> JArr [x] | None \<Rightarrow> JArr [])
      else JArr [])"

text \<open>
  The document both MongoDB servers build (part_000 lines 50-62, server.js lines 178-189):
  the body's properties, then \<^verbatim>\<open>q1_c\<close>, \<^verbatim>\<open>readingDuration\<close>, \<^verbatim>\<open>timestamp\<close> and
  \<^verbatim>\<open>consentAgreed\<close> set, then \<^verbatim>\<open>finalReadingDuration\<close> deleted.
\<close>

definition docToInsert :: "int \<Rightarrow> payload \<Rightarrow> obj" where
  "docToInsert t data =
     AList.delete ''finalReadingDuration''
       (AList.update ''consentAgreed''
          (Json (JBool (toLowerCase (String_js (map_of data ''consentAgreed'')) = ''true'')))
       (AList.update ''timestamp'' (Date t)
       (AList.update ''readingDuration'' (js (map_of data ''finalReadingDuration''))
       (AList.update ''q1_c'' (Json (wrap_q1_c (map_of data ''q1_c'')))
          (spread data)))))"

text \<open>
  \<^verbatim>\<open>insertOne\<close>: the driver gives a document whose \<^verbatim>\<open>_id\<close> is null or undefined a fresh
  object id; BSON stores \<^verbatim>\<open>undefined\<close> as null; an \<^verbatim>\<open>_id\<close> already in the collection is
  a duplicate key error. The collection is the list of its documents, oldest first.
\<close>

definition bson_store :: "jsval \<Rightarrow> jsval" where
  "bson_store v = (if v = Undefined then Json JNull else v)"

definition bson_doc :: "obj \<Rightarrow> obj" where
  "bson_doc d = map (\<lambda>(k, v). (k, bson_store v)) d"

definition with_id :: "string \<Rightarrow> obj \<Rightarrow> obj" where
  "with_id oid d =
     (if get_prop d ''_id'' = Undefined \<or> get_prop d ''_id'' = Json JNull
      then AList.update ''_id'' (ObjectId oid) d else d)"

definition insertOne :: "menv \<Rightarrow> obj list \<Rightarrow> obj \<Rightarrow> string + (jsval \<times> obj list)" where
  "insertOne env coll d =
     (case op_fault env of
        Some m \<Rightarrow> Inl m
      | None \<Rightarrow>
          (let d' = with_id (fresh_oid env) d; i = get_prop d' ''_id'' in
           if i \<in> set (map (\<lambda>x. get_prop x ''_id'') coll)
           then Inl ''E11000 duplicate key error collection: surveyDB.responses''
           else Inr (i, coll @ [bson_doc d'])))"

text \<open>The \<^verbatim>\<open>try\<close> and \<^verbatim>\<open>catch\<close> of \<^verbatim>\<open>POST /api/submit\<close>, shared by both MongoDB servers.\<close>

definition mongo_submit_try :: "menv \<Rightarrow> obj list \<Rightarrow> payload \<Rightarrow> response \<times> obj list" where
  "mongo_submit_try env coll data =
     (case connect_fault env of
        Some m \<Rightarrow>
          (\<lparr>status = 500, body = message_body (''Server error during submission: '' @ m)\<rparr>, coll)
      | None \<Rightarrow>
          (case insertOne env coll (docToInsert (now env) data) of
             Inl m \<Rightarrow>
               (\<lparr>status = 500, body = message_body (''Server error during submission: '' @ m)\<rparr>, coll)
           | Inr (i, coll') \<Rightarrow>
               (\<lparr>status = 201, body = submitted_body i\<rparr>, coll')))"

text \<open>
  part_000, lines 70-74: \<^verbatim>\<open>finally { if (mongoClient) { await client.close(); } }\<close>. The
  client is set once connecting succeeded; an error of \<^verbatim>\<open>close\<close> leaves the handler.
\<close>

definition submit_mongo :: "menv \<Rightarrow> obj list \<Rightarrow> payload \<Rightarrow> obj list outcome" where
  "submit_mongo env coll data =
     (let (r, coll') = mongo_submit_try env coll data in
      \<lparr>sent = r,
       unhandled = (if connect_fault env = None then close_fault env else None),
       db_after = coll'\<rparr>)"

text \<open>
  server.js, lines 198-207: the same, with \<^verbatim>\<open>close\<close> inside its own \<^verbatim>\<open>try\<close>, whose
  \<^verbatim>\<open>catch\<close> logs the error.
\<close>

definition submit_mongo_guarded :: "menv \<Rightarrow> obj list \<Rightarrow> payload \<Rightarrow> obj list outcome" where
  "submit_mongo_guarded env coll data =
     (let (r, coll') = mongo_submit_try env coll data in
      \<lparr>sent = r, unhandled = None, db_after = coll'\<rparr>)"

text \<open>
  \<^verbatim>\<open>find({}).sort({ timestamp: -1 }).toArray()\<close> returns the documents of the collection
  by descending timestamp; the order of documents with the same timestamp is the store's
  choice. Everything that is not a date sorts below every date.
\<close>

definition ts_key :: "obj \<Rightarrow> int option" where
  "ts_key d = (case get_prop d ''timestamp'' of Date t \<Rightarrow> Some t | _ \<Rightarrow> None)"

definition find_sorted :: "obj list \<Rightarrow> obj list \<Rightarrow> bool" where
  "find_sorted coll found \<longleftrightarrow>
     mset found = mset coll \<and> sorted_wrt (\<lambda>a b. ts_key b \<le> ts_key a) found"

text \<open>
  The row sent for a document (part_000 lines 92-105, server.js lines 227-238):
  \<^verbatim>\<open>{ ...row, id: row._id, finalReadingDuration: row.readingDuration }\<close>, then \<^verbatim>\<open>_id\<close>
  and \<^verbatim>\<open>readingDuration\<close> deleted.
\<close>

definition processRow :: "obj \<Rightarrow> obj" where
  "processRow row =
     AList.delete ''readingDuration''
       (AList.delete ''_id''
          (AList.update ''finalReadingDuration'' (get_prop row ''readingDuration'')
             (AList.update ''id'' (get_prop row ''_id'') row)))"

definition mongo_results_try :: "menv \<Rightarrow> obj list \<Rightarrow> response" where
  "mongo_results_try env found =
     (case connect_fault env of
        Some m \<Rightarrow> \<lparr>status = 500, body = message_body (''Server error fetching results: '' @ m)\<rparr>
      | None \<Rightarrow>
          (case op_fault env of
             Some m \<Rightarrow> \<lparr>status = 500, body = message_body (''Server error fetching results: '' @ m)\<rparr>
           | None \<Rightarrow> \<lparr>status = 200, body = BArray (map processRow found)\<rparr>))"

text \<open>
  \<^verbatim>\<open>GET /api/results\<close> of part_000 and of server.js; \<open>found\<close> is the array the store
  returned, \<open>coll\<close> the collection, which a read leaves as it is.
\<close>

definition results_mongo :: "menv \<Rightarrow> obj list \<Rightarrow> obj list \<Rightarrow> obj list outcome" where
  "results_mongo env coll found =
     \<lparr>sent = mongo_results_try env found,
      unhandled = (if connect_fault env = None then close_fault env else None),
      db_after = coll\<rparr>"

definition results_mongo_guarded :: "menv \<Rightarrow> obj list \<Rightarrow> obj list \<Rightarrow> obj list outcome" where
  "results_mongo_guarded env coll found =
     \<lparr>sent = mongo_results_try env found, unhandled = None, db_after = coll\<rparr>"


section \<open>The SQLite server\<close>

text \<open>
  A column of the table \<^verbatim>\<open>responses\<close> holds NULL, an integer or text. The driver binds a
  parameter of \<^verbatim>\<open>db.run\<close> by its JavaScript type: a string as text, a number as a number,
  a boolean as 1 or 0, \<^verbatim>\<open>null\<close> as NULL, another object as the text of its \<^verbatim>\<open>toString\<close>;
  an \<^verbatim>\<open>undefined\<close> parameter stays unbound, which is NULL. (The driver hands an integer
  beyond 32 bits to SQLite as a floating point number; an \<^verbatim>\<open>INTEGER\<close> column holds it as
  the same integer, and the text a \<^verbatim>\<open>TEXT\<close> column would make of it is left out here.)
\<close>

datatype sqlval = SNull | SInt int | SText string

fun bind :: "json option \<Rightarrow> sqlval" where
  "bind None = SNull"
| "bind (Some JNull) = SNull"
| "bind (Some (JBool b)) = SInt (if b then 1 else 0)"
| "bind (Some (JNum n)) = SInt n"
| "bind (Some (JStr s)) = SText s"
| "bind (Some (JArr xs)) = SText (ToString (JArr xs))"
| "bind (Some (JObj ms)) = SText (ToString (JObj ms))"

text \<open>
  The declared type of a column is its affinity (server.js lines 24-38): a \<^verbatim>\<open>TEXT\<close> column
  stores a number as its text, an \<^verbatim>\<open>INTEGER\<close> column stores text that is an integer
  literal as that integer. (Text that is a literal with a fraction or an exponent would
  become a real number, which the integer-valued numbers of this model leave out.)
\<close>

datatype affinity = TEXT | INTEGER

definition trim_spaces :: "string \<Rightarrow> string" where
  "trim_spaces s = rev (dropWhile is_ws (rev (dropWhile is_ws s)))"

definition int_literal :: "string \<Rightarrow> int option" where
  "int_literal s =
     (let t = trim_spaces s;
          neg = (case t of [] \<Rightarrow> False | c # r \<Rightarrow> c = CHR ''-'');
          sgn = (case t of [] \<Rightarrow> False | c # r \<Rightarrow> c = CHR ''-'' \<or> c = CHR ''+'');
          ds = (if sgn then tl t else t)
      in if ds \<noteq> [] \<and> list_all is_digit ds
         then Some (if neg then - int (digits_val ds) else int (digits_val ds))
         else None)"

fun apply_affinity :: "affinity \<Rightarrow> sqlval \<Rightarrow> sqlval" where
  "apply_affinity TEXT (SInt n) = SText (show_int n)"
| "apply_affinity INTEGER (SText s) = (case int_literal s of Some n \<Rightarrow> SInt n | None \<Rightarrow> SText s)"
| "apply_affinity a v = v"

text \<open>The columns the \<^verbatim>\<open>INSERT\<close> statement names (server.js lines 58-64), with their types.\<close>

definition insert_columns :: "(string \<times> affinity) list" where
  "insert_columns =
     [(''consentAgreed'', TEXT), (''gradeLevel'', TEXT),
      (''q1_a'', TEXT), (''q1_b'', TEXT), (''q1_c'', TEXT), (''q1_d'', TEXT), (''q1_e'', TEXT),
      (''q1_f'', TEXT),
      (''q2_a'', TEXT), (''q2_b'', TEXT), (''q2_c'', TEXT),
      (''readingDuration'', INTEGER),
      (''quiz_q1'', TEXT), (''quiz_q2'', TEXT), (''quiz_q3'', TEXT), (''quiz_q4'', TEXT),
      (''quiz_q5'', TEXT), (''quiz_q6'', TEXT), (''quiz_q7'', TEXT)]"

type_synonym sql_row = "(string \<times> sqlval) list"

text \<open>
  The database: the rows of \<^verbatim>\<open>responses\<close>, oldest first, and the last id that
  \<^verbatim>\<open>AUTOINCREMENT\<close> gave out. The collaborator of one request: whether the statement
  fails for a reason of the store's own, and the text of \<^verbatim>\<open>CURRENT_TIMESTAMP\<close>.
\<close>

record sqlite_db =
  table_rows :: "sql_row list"
  last_id :: int

record senv =
  fault :: "string option"
  current_timestamp :: string

text \<open>
  The \<^verbatim>\<open>INSERT\<close>: \<^verbatim>\<open>id\<close> is the next \<^verbatim>\<open>AUTOINCREMENT\<close> value, one more than the
  largest id the table holds or ever gave out; \<^verbatim>\<open>timestamp\<close> is its default
  \<^verbatim>\<open>CURRENT_TIMESTAMP\<close>; and \<^verbatim>\<open>gradeLevel TEXT NOT NULL\<close> refuses NULL.
\<close>

definition row_id :: "sql_row \<Rightarrow> int" where
  "row_id r = (case map_of r ''id'' of Some (SInt n) \<Rightarrow> n | _ \<Rightarrow> 0)"

definition next_id :: "sqlite_db \<Rightarrow> int" where
  "next_id db = fold max (map row_id (table_rows db)) (last_id db) + 1"

definition new_row :: "int \<Rightarrow> string \<Rightarrow> sqlval list \<Rightarrow> sql_row" where
  "new_row i ts params =
     (''id'', SInt i) #
     map (\<lambda>((c, a), v). (c, apply_affinity a v)) (zip insert_columns params) @
     [(''timestamp'', SText ts)]"

definition run_insert :: "senv \<Rightarrow> sqlite_db \<Rightarrow> sqlval list \<Rightarrow> string + (int \<times> sqlite_db)" where
  "run_insert env db params =
     (case fault env of
        Some m \<Rightarrow> Inl m
      | None \<Rightarrow>
          (let i = next_id db; row = new_row i (current_timestamp env) params in
           if map_of row ''gradeLevel'' = Some SNull
           then Inl ''SQLITE_CONSTRAINT: NOT NULL constraint failed: responses.gradeLevel''
           else Inr (i, \<lparr>table_rows = table_rows db @ [row], last_id = i\<rparr>)))"

text \<open>\<^verbatim>\<open>data.q1_c || []\<close>\<close>

definition q1_c_or_empty :: "json option \<Rightarrow> json" where
  "q1_c_or_empty v = (if truthy v then (case v of Some x \<Rightarrow> x | None \<Rightarrow> JArr []) else JArr [])"

text \<open>\<^verbatim>\<open>data.consentAgreed ? String(data.consentAgreed) : 'false'\<close>\<close>

definition consentValue :: "json option \<Rightarrow> string" where
  "consentValue v = (if truthy v then String_js v else ''false'')"

text \<open>The parameters of \<^verbatim>\<open>db.run\<close> (server.js lines 66-72).\<close>

definition insert_params :: "payload \<Rightarrow> sqlval list" where
  "insert_params data =
     [bind (Some (JStr (consentValue (map_of data ''consentAgreed'')))),
      bind (map_of data ''gradeLevel''),
      bind (map_of data ''q1_a''), bind (map_of data ''q1_b''),
      bind (Some (JStr (JSON_stringify (q1_c_or_empty (map_of data ''q1_c''))))),
      bind (map_of data ''q1_d''), bind (map_of data ''q1_e''), bind (map_of data ''q1_f''),
      bind (map_of data ''q2_a''), bind (map_of data ''q2_b''), bind (map_of data ''q2_c''),
      bind (map_of data ''finalReadingDuration''),
      bind (map_of data ''quiz_q1''), bind (map_of data ''quiz_q2''), bind (map_of data ''quiz_q3''),
      bind (map_of data ''quiz_q4''), bind (map_of data ''quiz_q5''), bind (map_of data ''quiz_q6''),
      bind (map_of data ''quiz_q7'')]"

text \<open>\<^verbatim>\<open>POST /api/submit\<close> (server.js lines 49-79).\<close>

definition submit_sqlite :: "senv \<Rightarrow> sqlite_db \<Rightarrow> payload \<Rightarrow> sqlite_db outcome" where
  "submit_sqlite env db data =
     (case run_insert env db (insert_params data) of
        Inl m \<Rightarrow>
          \<lparr>sent = \<lparr>status = 500, body = message_body ''Server error during submission.''\<rparr>,
           unhandled = None, db_after = db\<rparr>
      | Inr (i, db') \<Rightarrow>
          \<lparr>sent = \<lparr>status = 201, body = submitted_body (Json (JNum i))\<rparr>,
           unhandled = None, db_after = db'\<rparr>)"

text \<open>\<^verbatim>\<open>SELECT * FROM responses ORDER BY id DESC\<close>, each row as the object the driver builds.\<close>

fun sql_to_js :: "sqlval \<Rightarrow> json" where
  "sql_to_js SNull = JNull"
| "sql_to_js (SInt n) = JNum n"
| "sql_to_js (SText s) = JStr s"

definition row_object :: "sql_row \<Rightarrow> payload" where
  "row_object r = map (\<lambda>(c, v). (c, sql_to_js v)) r"

definition select_all :: "sqlite_db \<Rightarrow> payload list" where
  "select_all db = map row_object (rev (sort_key row_id (table_rows db)))"

text \<open>
  The function mapped over the rows (server.js lines 92-106). \<^verbatim>\<open>JSON.parse\<close> converts its
  argument to a string first; its \<^verbatim>\<open>SyntaxError\<close> is caught and gives the empty array.
\<close>

definition parse_q1_c :: "json option \<Rightarrow> json" where
  "parse_q1_c v = (case JSON_parse (String_js v) of Some x \<Rightarrow> x | None \<Rightarrow> JArr [])"

definition consent_flag :: "json option \<Rightarrow> bool" where
  "consent_flag c \<longleftrightarrow> c = Some (JStr ''true'') \<or> c = Some (JStr ''1'') \<or> c = Some (JBool True)"

definition sqlite_row :: "payload \<Rightarrow> obj" where
  "sqlite_row row =
     (let row1 = AList.update ''q1_c'' (parse_q1_c (map_of row ''q1_c'')) row;
          row2 = AList.update ''consentAgreed'' (JBool (consent_flag (map_of row1 ''consentAgreed''))) row1;
          row3 = AList.update ''finalReadingDuration'' (js (map_of row2 ''readingDuration'')) (spread row2)
      in AList.delete ''readingDuration'' row3)"

text \<open>\<^verbatim>\<open>GET /api/results\<close> (server.js lines 82-110).\<close>

definition results_sqlite :: "senv \<Rightarrow> sqlite_db \<Rightarrow> sqlite_db outcome" where
  "results_sqlite env db =
     (case fault env of
        Some m \<Rightarrow>
          \<lparr>sent = \<lparr>status = 500, body = message_body ''Server error fetching results.''\<rparr>,
           unhandled = None, db_after = db\<rparr>
      | None \<Rightarrow>
          \<lparr>sent = \<lparr>status = 200, body = BArray (map sqlite_row (select_all db))\<rparr>,
           unhandled = None, db_after = db\<rparr>)"

section \<open>Submitting and fetching\<close>

text \<open>
  The id a \<^verbatim>\<open>201\<close> response announces, the rows of a results response, and the row
  with a given \<^verbatim>\<open>id\<close> among them.
\<close>

definition created :: "response \<Rightarrow> jsval option" where
  "created r =
     (if status r = 201
      then (case body r of BObject ob \<Rightarrow> Some (get_prop ob ''id'') | BArray rows \<Rightarrow> None)
      else None)"

definition fetched_rows :: "response \<Rightarrow> obj list" where
  "fetched_rows r = (case body r of BArray rows \<Rightarrow> rows | BObject ob \<Rightarrow> [])"

definition fetched :: "jsval \<Rightarrow> response \<Rightarrow> obj option" where
  "fetched i r = find (\<lambda>row. get_prop row ''id'' = i) (fetched_rows r)"

text \<open>
  A submit and fetch cycle: the submission, and when it is answered with a new id, the row
  with that id in the results fetched from the store the submission left.
\<close>

definition cycle ::
  "('e \<Rightarrow> 's \<Rightarrow> payload \<Rightarrow> 's outcome) \<Rightarrow> ('s \<Rightarrow> 's outcome) \<Rightarrow> 'e \<Rightarrow> 's \<Rightarrow> payload \<Rightarrow> obj option" where
  "cycle submit fetch env s data =
     (let out = submit env s data in
      case created (sent out) of
        None \<Rightarrow> None
      | Some i \<Rightarrow> fetched i (sent (fetch (db_after out))))"

text \<open>The document a MongoDB submission stores.\<close>

definition stored_doc :: "menv \<Rightarrow> payload \<Rightarrow> obj" where
  "stored_doc env data = bson_doc (with_id (fresh_oid env) (docToInsert (now env) data))"

text \<open>A sequence of submissions, each with its own collaborator: the responses and the store.\<close>

fun run :: "('e \<Rightarrow> 's \<Rightarrow> payload \<Rightarrow> 's outcome) \<Rightarrow> 's \<Rightarrow> ('e \<times> payload) list \<Rightarrow> response list \<times> 's" where
  "run h s [] = ([], s)"
| "run h s ((e, data) # reqs) =
     (let out = h e s data; (rs, s') = run h (db_after out) reqs in (sent out # rs, s'))"

definition created_ids :: "response list \<Rightarrow> jsval list" where
  "created_ids rs = List.map_filter created rs"

definition empty_db :: sqlite_db where
  "empty_db = \<lparr>table_rows = [], last_id = 0\<rparr>"

text \<open>Whether a message occurs inside a text.\<close>

fun occurs_in :: "string \<Rightarrow> string \<Rightarrow> bool" where
  "occurs_in m [] = (m = [])"
| "occurs_in m (c # cs) = (take (length m) (c # cs) = m \<or> occurs_in m cs)"

section \<open>Well-formed JSON values and their texts\<close>

text \<open>What may follow a number in a text: anything but a further digit.\<close>

definition ok_rest :: "string \<Rightarrow> bool" where
  "ok_rest r = (case r of [] \<Rightarrow> True | c # cs \<Rightarrow> \<not> is_digit c)"

text \<open>
  The values \<^verbatim>\<open>JSON.parse\<close> produces: no object has a key twice. A request body is such
  a value.
\<close>

fun wf_json :: "json \<Rightarrow> bool" where
  "wf_json (JArr xs) = (\<forall>x \<in> set xs. wf_json x)"
| "wf_json (JObj ms) = (distinct (map fst ms) \<and> (\<forall>m \<in> set ms. wf_json (snd m)))"
| "wf_json v = True"

text \<open>The first character of a value's text: no white space, bracket, brace or comma.\<close>

definition starter :: "char \<Rightarrow> bool" where
  "starter c \<longleftrightarrow> \<not> is_ws c \<and> c \<noteq> CHR '']'' \<and> c \<noteq> CHR ''}'' \<and> c \<noteq> CHR '',''"

text \<open>A value is read back from its text, whatever follows the text.\<close>

definition rt :: "json \<Rightarrow> bool" where
  "rt v \<longleftrightarrow> (\<forall>n r. 2 * length (JSON_stringify v) \<le> n \<longrightarrow> ok_rest r \<longrightarrow>
       parse_value n (JSON_stringify v @ r) = Some (v, r))"

text \<open>The text of one member of an object.\<close>

definition member_text :: "string \<times> json \<Rightarrow> string" where
  "member_text m = quote (fst m) @ '':'' @ JSON_stringify (snd m)"

section \<open>Example requests\<close>

text \<open>A store that works, and a survey as the form sends it.\<close>

definition ok_senv :: senv where
  "ok_senv = \<lparr>fault = None, current_timestamp = ''2025-03-01 09:30:00''\<rparr>"

definition ok_menv :: menv where
  "ok_menv = \<lparr>connect_fault = None, op_fault = None, close_fault = None, now = 1740821400000,
      fresh_oid = ''65e1a0f2c3b4d5e6f7a8b9c0''\<rparr>"

definition survey :: payload where
  "survey = [(''consentAgreed'', JStr ''true''), (''gradeLevel'', JStr ''3''),
     (''q1_a'', JStr ''yes''), (''q1_c'', JArr [JStr ''a'', JStr ''b'']),
     (''quiz_q1'', JStr ''2''), (''finalReadingDuration'', JNum 42)]"

text \<open>A field of the row a cycle fetched; \<^verbatim>\<open>undefined\<close> when there is no such row.\<close>

definition fetched_field :: "string \<Rightarrow> obj option \<Rightarrow> jsval" where
  "fetched_field k r = (case r of None \<Rightarrow> Undefined | Some row \<Rightarrow> get_prop row k)"

text \<open>
  Submissions that tell the servers apart: consent in capitals, consent as \<^verbatim>\<open>"1"\<close>, one
  choice for \<^verbatim>\<open>q1_c\<close> as a plain string, and a duration sent as text or as a boolean.
\<close>

definition shouted_consent :: payload where
  "shouted_consent = [(''consentAgreed'', JStr ''TRUE''), (''gradeLevel'', JStr ''3'')]"

definition numeric_consent :: payload where
  "numeric_consent = [(''consentAgreed'', JStr ''1''), (''gradeLevel'', JStr ''3'')]"

definition single_choice :: payload where
  "single_choice = [(''consentAgreed'', JStr ''true''), (''gradeLevel'', JStr ''3''), (''q1_c'', JStr ''a'')]"

definition duration_as_text :: payload where
  "duration_as_text = [(''gradeLevel'', JStr ''3''), (''finalReadingDuration'', JStr ''42'')]"

definition duration_as_flag :: payload where
  "duration_as_flag = [(''gradeLevel'', JStr ''3''), (''finalReadingDuration'', JBool True)]"

text \<open>The message of a response body.\<close>

definition message_of :: "response \<Rightarrow> string" where
  "message_of r =
     (case body r of
        BObject ob \<Rightarrow> (case get_prop ob ''message'' of Json (JStr m) \<Rightarrow> m | _ \<Rightarrow> [])
      | BArray rows \<Rightarrow> [])"

text \<open>
  Stores in trouble, a submission that brings a timestamp of its own, one without a grade
  level, and a table row whose \<^verbatim>\<open>q1_c\<close> is not JSON text.
\<close>

definition broken_senv :: senv where
  "broken_senv = \<lparr>fault = Some ''SQLITE_IOERR: disk I/O error'', current_timestamp = ''2025-03-01 09:30:00''\<rparr>"

definition broken_menv :: menv where
  "broken_menv = \<lparr>connect_fault = None, op_fault = Some ''connection pool closed'',
      close_fault = None, now = 1740821400000, fresh_oid = ''65e1a0f2c3b4d5e6f7a8b9c0''\<rparr>"


definition no_grade :: payload where
  "no_grade = [(''consentAgreed'', JStr ''true''), (''q1_a'', JStr ''yes''), (''finalReadingDuration'', JNum 42)]"






text \<open>The ids of the rows of a results response, in order.\<close>

definition row_ids :: "obj list \<Rightarrow> jsval list" where
  "row_ids rows = map (\<lambda>row. get_prop row ''id'') rows"

text \<open>
  Sequences of submissions: three to SQLite, the second without a grade level; two to MongoDB
  a minute apart; two within the same millisecond; and two with the clock set back in between.
\<close>

definition later_menv :: menv where
  "later_menv = \<lparr>connect_fault = None, op_fault = None, close_fault = None, now = 1740821460000,
      fresh_oid = ''65e1a12ec3b4d5e6f7a8b9c1''\<rparr>"

definition same_ms_menv :: menv where
  "same_ms_menv = \<lparr>connect_fault = None, op_fault = None, close_fault = None, now = 1740821400000,
      fresh_oid = ''65e1a0f2c3b4d5e6f7a8b9c1''\<rparr>"

definition clock_back_menv :: menv where
  "clock_back_menv = \<lparr>connect_fault = None, op_fault = None, close_fault = None, now = 1740821399000,
      fresh_oid = ''65e1a0f1c3b4d5e6f7a8b9c1''\<rparr>"

definition three_sqlite_submissions :: "(senv \<times> payload) list" where
  "three_sqlite_submissions = [(ok_senv, survey), (ok_senv, no_grade), (ok_senv, single_choice)]"

definition two_mongo_submissions :: "(menv \<times> payload) list" where
  "two_mongo_submissions = [(ok_menv, survey), (later_menv, single_choice)]"

definition same_ms_submissions :: "(menv \<times> payload) list" where
  "same_ms_submissions = [(ok_menv, survey), (same_ms_menv, single_choice)]"

definition clock_back_submissions :: "(menv \<times> payload) list" where
  "clock_back_submissions = [(ok_menv, survey), (clock_back_menv, single_choice)]"

section \<open>Properties\<close>

lemma get_prop_update:
  "get_prop (AList.update k v ob) k' = (if k' = k then v else get_prop ob k')"
  by (simp add: get_prop_def update_conv')

lemma get_prop_delete:
  "get_prop (AList.delete k ob) k' = (if k' = k then Undefined else get_prop ob k')"
  by (simp add: get_prop_def delete_conv')

lemma get_prop_spread: "get_prop (spread data) k = js (map_of data k)"
  by (induction data) (auto simp: spread_def get_prop_def)

subsection \<open>JSON text is read back as it was written\<close>

lemma is_digit_digit_char: "d < 10 \<Longrightarrow> is_digit (digit_char d)"
  by (simp add: is_digit_def digit_char_def)

lemma digit_val_digit_char: "d < 10 \<Longrightarrow> digit_val (digit_char d) = d"
  by (simp add: digit_val_def digit_char_def)

lemma digit_char_zero:
  assumes "d < 10"
  shows "digit_char d = CHR ''0'' \<longleftrightarrow> d = 0"
proof -
  have "digit_char d = CHR ''0'' \<longleftrightarrow> (of_char (digit_char d) :: nat) = of_char (CHR ''0'')"
    by (rule of_char_eq_iff[symmetric])
  also have "\<dots> \<longleftrightarrow> d = 0" using assms by (simp add: digit_char_def)
  finally show ?thesis .
qed

lemma digits_val_snoc: "digits_val (ds @ [c]) = 10 * digits_val ds + digit_val c"
  by (simp add: digits_val_def)

lemma nat_digits_all: "list_all is_digit (nat_digits n)"
proof (induction n rule: nat_digits.induct)
  case (1 n)
  show ?case
  proof (cases "n < 10")
    case True
    then show ?thesis by (simp add: nat_digits.simps[of n] is_digit_digit_char)
  next
    case False
    with 1 show ?thesis by (simp add: nat_digits.simps[of n] is_digit_digit_char)
  qed
qed

lemma nat_digits_val: "digits_val (nat_digits n) = n"
proof (induction n rule: nat_digits.induct)
  case (1 n)
  show ?case
  proof (cases "n < 10")
    case True
    then show ?thesis by (simp add: nat_digits.simps[of n] digits_val_def digit_val_digit_char)
  next
    case False
    with 1 show ?thesis
      by (simp add: nat_digits.simps[of n] digits_val_snoc digit_val_digit_char)
  qed
qed

lemma nat_digits_hd:
  "\<exists>c cs. nat_digits n = c # cs \<and> is_digit c \<and> (c = CHR ''0'' \<longleftrightarrow> n = 0) \<and> (n = 0 \<longrightarrow> cs = [])"
proof (induction n rule: nat_digits.induct)
  case (1 n)
  show ?case
  proof (cases "n < 10")
    case True
    then show ?thesis
      by (simp add: nat_digits.simps[of n] is_digit_digit_char digit_char_zero)
  next
    case False
    then have "n div 10 \<noteq> 0" by simp
    with 1 False show ?thesis by (auto simp: nat_digits.simps[of n])
  qed
qed

lemma takeWhile_digits:
  "list_all is_digit ds \<Longrightarrow> ok_rest r \<Longrightarrow> takeWhile is_digit (ds @ r) = ds \<and> dropWhile is_digit (ds @ r) = r"
  by (induction ds) (auto simp: ok_rest_def split: list.splits)

lemma parse_number_show_int:
  assumes "ok_rest r"
  shows "parse_number (show_int i @ r) = Some (i, r)"
proof -
  obtain c cs where n: "nat_digits (nat \<bar>i\<bar>) = c # cs" "is_digit c"
    "c = CHR ''0'' \<longleftrightarrow> nat \<bar>i\<bar> = 0" "nat \<bar>i\<bar> = 0 \<longrightarrow> cs = []"
    using nat_digits_hd[of "nat \<bar>i\<bar>"] by auto
  have nm: "c \<noteq> CHR ''-''" using n(2) by (auto simp: is_digit_def)
  have tw: "takeWhile is_digit ((c # cs) @ r) = c # cs" "dropWhile is_digit ((c # cs) @ r) = r"
    using takeWhile_digits[OF _ assms, of "c # cs"] nat_digits_all[of "nat \<bar>i\<bar>"] n(1) by simp_all
  have v: "digits_val (c # cs) = nat \<bar>i\<bar>" using nat_digits_val[of "nat \<bar>i\<bar>"] n(1) by simp
  show ?thesis
  proof (cases "i < 0")
    case True
    then have s: "show_int i = CHR ''-'' # c # cs" using n(1) by (simp add: show_int_def abs_if)
    have "c \<noteq> CHR ''0''" using n(3) True by simp
    then show ?thesis using s tw v n(2) True by (simp add: parse_number_def Let_def)
  next
    case False
    then have s: "show_int i = c # cs" using n(1) by (simp add: show_int_def abs_if)
    show ?thesis
    proof (cases "i = 0")
      case True
      then show ?thesis using s n nm by (simp add: parse_number_def Let_def)
    next
      case nz: False
      then have "c \<noteq> CHR ''0''" using n(3) False by simp
      then show ?thesis using s tw v n(2) nm False by (simp add: parse_number_def Let_def)
    qed
  qed
qed

lemma show_int_hd: "\<exists>c cs. show_int i = c # cs \<and> (c = CHR ''-'' \<or> is_digit c)"
  using nat_digits_hd[of "nat i"] nat_digits_hd[of "nat (- i)"]
  by (auto simp: show_int_def)

lemma hex_val_hex_char: "d < 16 \<Longrightarrow> hex_val (hex_char d) = Some d"
  by (auto simp: hex_val_def hex_char_def Let_def)

lemma unicode_escape_low:
  assumes "(of_char c :: nat) < 32"
  shows "unicode_escape (CHR ''0'' # CHR ''0'' # hex_char (of_char c div 16) # hex_char (of_char c mod 16) # r)
           = Some (c, r)"
proof -
  let ?n = "of_char c :: nat"
  have a: "hex_val (hex_char (?n div 16)) = Some (?n div 16)"
    using assms by (intro hex_val_hex_char) simp
  have b: "hex_val (hex_char (?n mod 16)) = Some (?n mod 16)"
    by (intro hex_val_hex_char) simp
  have z: "hex_val (CHR ''0'') = Some 0" by (simp add: hex_val_def)
  have "?n div 16 * 16 + ?n mod 16 = ?n" by simp
  then show ?thesis using a b z by (simp add: unicode_escape_def)
qed

lemma unescape_escape_char:
  "unescape (escape_char c @ s) = map_option (apfst ((#) c)) (unescape s)"
proof -
  let ?n = "of_char c :: nat"
  consider "c = dq" | "c = bsl" | "?n = 8" | "?n = 12" | "?n = 10" | "?n = 13" | "?n = 9"
    | "c \<noteq> dq" "c \<noteq> bsl" "?n \<noteq> 8" "?n \<noteq> 12" "?n \<noteq> 10" "?n \<noteq> 13" "?n \<noteq> 9" "?n < 32"
    | "c \<noteq> dq" "c \<noteq> bsl" "\<not> ?n < 32"
    by linarith
  then show ?thesis
  proof cases
    case 1
    then show ?thesis by (simp add: escape_char_def simple_escape_def dq_def bsl_def)
  next
    case 2
    then show ?thesis by (simp add: escape_char_def simple_escape_def dq_def bsl_def)
  next
    case 3
    then have "c = CHR 0x08" by (simp flip: of_char_eq_iff[where 'a = nat])
    then show ?thesis by (simp add: escape_char_def simple_escape_def dq_def bsl_def)
  next
    case 4
    then have "c = CHR 0x0C" by (simp flip: of_char_eq_iff[where 'a = nat])
    then show ?thesis by (simp add: escape_char_def simple_escape_def dq_def bsl_def)
  next
    case 5
    then have "c = CHR 0x0A" by (simp flip: of_char_eq_iff[where 'a = nat])
    then show ?thesis by (simp add: escape_char_def simple_escape_def dq_def bsl_def)
  next
    case 6
    then have "c = CHR 0x0D" by (simp flip: of_char_eq_iff[where 'a = nat])
    then show ?thesis by (simp add: escape_char_def simple_escape_def dq_def bsl_def)
  next
    case 7
    then have "c = CHR 0x09" by (simp flip: of_char_eq_iff[where 'a = nat])
    then show ?thesis by (simp add: escape_char_def simple_escape_def dq_def bsl_def)
  next
    case 8
    then have e: "escape_char c = [bsl, CHR ''u'', CHR ''0'', CHR ''0'', hex_char (?n div 16), hex_char (?n mod 16)]"
      by (simp add: escape_char_def Let_def)
    show ?thesis using 8(8) unicode_escape_low[OF 8(8)]
      by (simp add: e dq_def bsl_def)
  next
    case 9
    then show ?thesis by (simp add: escape_char_def Let_def)
  qed
qed

lemma unescape_quote_body:
  "unescape (concat (map escape_char s) @ dq # r) = Some (s, r)"
  by (induction s) (simp_all add: unescape_escape_char)

lemma quote_hd: "quote s = dq # concat (map escape_char s) @ [dq]"
  by (simp add: quote_def)

lemma skip_ws_Cons: "\<not> is_ws c \<Longrightarrow> skip_ws (c # s) = c # s"
  by (simp add: skip_ws_def)

lemma join_Cons: "ys \<noteq> [] \<Longrightarrow> join sep (y # ys) = y @ sep @ join sep ys"
  by (cases ys) simp_all

lemma stringify_hd: "\<exists>c cs. JSON_stringify v = c # cs \<and> starter c"
proof (cases v)
  case (JNum i)
  obtain c cs where "show_int i = c # cs" "c = CHR ''-'' \<or> is_digit c"
    using show_int_hd[of i] by auto
  then show ?thesis using JNum by (auto simp: starter_def is_ws_def is_digit_def)
qed (auto simp: starter_def is_ws_def quote_def dq_def)

lemma pv_null: "parse_value (Suc n) (''null'' @ r) = Some (JNull, r)"
  by (simp add: skip_ws_def is_ws_def dq_def)

lemma pv_true: "parse_value (Suc n) (''true'' @ r) = Some (JBool True, r)"
  by (simp add: skip_ws_def is_ws_def dq_def)

lemma pv_false: "parse_value (Suc n) (''false'' @ r) = Some (JBool False, r)"
  by (simp add: skip_ws_def is_ws_def dq_def)

lemma pv_num:
  assumes "ok_rest r"
  shows "parse_value (Suc n) (show_int i @ r) = Some (JNum i, r)"
proof -
  obtain c cs where s: "show_int i = c # cs" and c: "c = CHR ''-'' \<or> is_digit c"
    using show_int_hd[of i] by auto
  have nw: "\<not> is_ws c" "c \<noteq> dq" "c \<noteq> CHR ''[''" "c \<noteq> CHR ''{''"
    "c \<noteq> CHR ''n''" "c \<noteq> CHR ''t''" "c \<noteq> CHR ''f''"
    using c by (auto simp: is_ws_def is_digit_def dq_def)
  have "parse_value (Suc n) (c # cs @ r) = map_option (apfst JNum) (parse_number (c # cs @ r))"
    using nw by (simp add: skip_ws_Cons)
  then show ?thesis using parse_number_show_int[OF assms, of i] s by simp
qed

lemma pv_str: "parse_value (Suc n) (quote s @ r) = Some (JStr s, r)"
proof -
  have "\<not> is_ws dq" by (simp add: is_ws_def dq_def)
  then show ?thesis
    by (simp add: quote_def skip_ws_Cons unescape_quote_body)
qed

lemma pv_arr_empty: "parse_value (Suc n) (''[]'' @ r) = Some (JArr [], r)"
  by (simp add: skip_ws_def is_ws_def dq_def)

lemma pv_obj_empty: "parse_value (Suc n) (''{}'' @ r) = Some (JObj [], r)"
  by (simp add: skip_ws_def is_ws_def dq_def)

lemma pv_arr:
  assumes "starter c"
  shows "parse_value (Suc n) (CHR ''['' # c # s) = map_option (apfst JArr) (parse_elems n (c # s))"
  using assms by (simp add: starter_def skip_ws_def is_ws_def dq_def)

lemma pv_obj:
  shows "parse_value (Suc n) (CHR ''{'' # dq # s) = map_option (apfst members_obj) (parse_members n (dq # s))"
  by (simp add: skip_ws_def is_ws_def dq_def)

declare parse_value.simps [simp del] parse_elems.simps [simp del] parse_members.simps [simp del]

lemma ok_rest_delims: "ok_rest (CHR '']'' # r)" "ok_rest (CHR ''}'' # r)" "ok_rest (CHR '','' # r)"
  by (simp_all add: ok_rest_def is_digit_def)

lemma elems_roundtrip:
  assumes "xs \<noteq> []" "\<forall>x \<in> set xs. rt x"
    and "2 * length (join '','' (map JSON_stringify xs)) + 1 \<le> m"
  shows "parse_elems m (join '','' (map JSON_stringify xs) @ CHR '']'' # r) = Some (xs, r)"
  using assms
proof (induction xs arbitrary: m rule: list_nonempty_induct)
  case (single x)
  then obtain m' where m: "m = Suc m'" by (cases m) auto
  have "parse_value m' (JSON_stringify x @ CHR '']'' # r) = Some (x, CHR '']'' # r)"
    using single m by (simp add: rt_def ok_rest_delims)
  then show ?case by (simp add: m parse_elems.simps skip_ws_def is_ws_def)
next
  case (cons x xs)
  then obtain m' where m: "m = Suc m'" by (cases m) auto
  have j: "join '','' (JSON_stringify x # map JSON_stringify xs)
             = JSON_stringify x @ '','' @ join '','' (map JSON_stringify xs)"
    using cons.hyps by (simp add: join_Cons)
  have a: "parse_value m' (JSON_stringify x @ CHR '','' # join '','' (map JSON_stringify xs) @ CHR '']'' # r)
         = Some (x, CHR '','' # join '','' (map JSON_stringify xs) @ CHR '']'' # r)"
    using cons.prems m j by (simp add: rt_def ok_rest_delims)
  have b: "parse_elems m' (join '','' (map JSON_stringify xs) @ CHR '']'' # r) = Some (xs, r)"
    using cons.prems m j by (intro cons.IH) simp_all
  show ?case using a b by (simp add: m j parse_elems.simps skip_ws_def is_ws_def)
qed

lemma parse_members_step:
  assumes "parse_value n (JSON_stringify v @ r) = Some (v, r)"
  shows "parse_members (Suc n) (member_text (k, v) @ r) =
     (case skip_ws r of [] \<Rightarrow> None
      | c3 # r4 \<Rightarrow> if c3 = CHR ''}'' then Some ([(k, v)], r4)
                  else if c3 = CHR '','' then map_option (apfst ((#) (k, v))) (parse_members n r4)
                  else None)"
proof -
  have "\<not> is_ws dq" by (simp add: is_ws_def dq_def)
  then show ?thesis using assms
    by (simp add: member_text_def quote_def skip_ws_Cons unescape_quote_body parse_members.simps)
       (simp add: skip_ws_def is_ws_def)
qed

lemma members_roundtrip:
  assumes "ms \<noteq> []" "\<forall>m \<in> set ms. rt (snd m)"
    and "2 * length (join '','' (map member_text ms)) + 1 \<le> n"
  shows "parse_members n (join '','' (map member_text ms) @ CHR ''}'' # r) = Some (ms, r)"
  using assms
proof (induction ms arbitrary: n rule: list_nonempty_induct)
  case (single m)
  then obtain n' where n: "n = Suc n'" by (cases n) auto
  obtain k v where kv: "m = (k, v)" by (cases m)
  have "2 * length (JSON_stringify v) \<le> n'" using single n kv by (simp add: member_text_def)
  then have "parse_value n' (JSON_stringify v @ CHR ''}'' # r) = Some (v, CHR ''}'' # r)"
    using single kv by (simp add: rt_def ok_rest_delims)
  from parse_members_step[OF this, of k] show ?case
    by (simp add: n kv skip_ws_def is_ws_def)
next
  case (cons m ms)
  then obtain n' where n: "n = Suc n'" by (cases n) auto
  obtain k v where kv: "m = (k, v)" by (cases m)
  let ?rest = "join '','' (map member_text ms) @ CHR ''}'' # r"
  have j: "join '','' (member_text m # map member_text ms)
             = member_text m @ '','' @ join '','' (map member_text ms)"
    using cons.hyps by (simp add: join_Cons)
  have "length (JSON_stringify v) \<le> length (member_text m)" by (simp add: kv member_text_def)
  then have "2 * length (JSON_stringify v) \<le> n'" using cons.prems(2) n j by simp
  then have a: "parse_value n' (JSON_stringify v @ CHR '','' # ?rest) = Some (v, CHR '','' # ?rest)"
    using cons.prems kv by (simp add: rt_def ok_rest_delims)
  have b: "parse_members n' ?rest = Some (ms, r)"
    using cons.prems n j by (intro cons.IH) simp_all
  from parse_members_step[OF a, of k] b show ?case
    using j by (simp add: n kv skip_ws_def is_ws_def)
qed

lemma foldl_update_distinct:
  "distinct (map fst ms) \<Longrightarrow> set (map fst acc) \<inter> set (map fst ms) = {} \<Longrightarrow>
     foldl (\<lambda>acc m. AList.update (fst m) (snd m) acc) acc ms = acc @ ms"
proof (induction ms arbitrary: acc)
  case Nil
  then show ?case by simp
next
  case (Cons m ms)
  have u: "AList.update (fst m) (snd m) acc = acc @ [m]"
    using Cons.prems(2) by (induction acc) auto
  have "foldl (\<lambda>acc m. AList.update (fst m) (snd m) acc) (acc @ [m]) ms = (acc @ [m]) @ ms"
    using Cons.prems by (intro Cons.IH) auto
  then show ?case by (simp add: u)
qed

lemma members_obj_distinct: "distinct (map fst ms) \<Longrightarrow> members_obj ms = JObj ms"
  using foldl_update_distinct[of ms "[]"] by (simp add: members_obj_def)

lemma member_text_hd: "\<exists>t. member_text m = dq # t"
  by (simp add: member_text_def quote_def)

lemma rt_all: "wf_json v \<Longrightarrow> rt v"
proof (induction v)
  case JNull
  show ?case unfolding rt_def
  proof (intro allI impI)
    fix n r assume "2 * length (JSON_stringify JNull) \<le> n"
    then obtain n' where "n = Suc n'" by (cases n) auto
    then show "parse_value n (JSON_stringify JNull @ r) = Some (JNull, r)"
      using pv_null by simp
  qed
next
  case (JBool b)
  show ?case unfolding rt_def
  proof (intro allI impI)
    fix n r assume "2 * length (JSON_stringify (JBool b)) \<le> n"
    then obtain n' where "n = Suc n'" by (cases n; cases b) auto
    then show "parse_value n (JSON_stringify (JBool b) @ r) = Some (JBool b, r)"
      using pv_true pv_false by (cases b) simp_all
  qed
next
  case (JNum i)
  show ?case unfolding rt_def
  proof (intro allI impI)
    fix n r assume "2 * length (JSON_stringify (JNum i)) \<le> n" and r: "ok_rest r"
    moreover have "show_int i \<noteq> []" using show_int_hd[of i] by auto
    ultimately obtain n' where "n = Suc n'" by (cases n) auto
    then show "parse_value n (JSON_stringify (JNum i) @ r) = Some (JNum i, r)"
      using pv_num[OF r] by simp
  qed
next
  case (JStr s)
  show ?case unfolding rt_def
  proof (intro allI impI)
    fix n r assume "2 * length (JSON_stringify (JStr s)) \<le> n"
    then obtain n' where "n = Suc n'" by (cases n) (auto simp: quote_def)
    then show "parse_value n (JSON_stringify (JStr s) @ r) = Some (JStr s, r)"
      using pv_str by simp
  qed
next
  case (JArr xs)
  then have ih: "\<forall>x \<in> set xs. rt x" by simp
  show ?case unfolding rt_def
  proof (intro allI impI)
    fix n r assume n: "2 * length (JSON_stringify (JArr xs)) \<le> n"
    then obtain n' where n': "n = Suc n'" by (cases n) auto
    show "parse_value n (JSON_stringify (JArr xs) @ r) = Some (JArr xs, r)"
    proof (cases xs)
      case Nil
      then show ?thesis using pv_arr_empty[of n' r] n' by simp
    next
      case (Cons y ys)
      let ?j = "join '','' (map JSON_stringify xs)"
      obtain c cs where c: "JSON_stringify y = c # cs" "starter c"
        using stringify_hd[of y] by auto
      have "\<exists>t. ?j = c # t" using Cons c(1) by (cases ys) simp_all
      then obtain t where t: "?j = c # t" ..
      have e: "parse_elems n' (?j @ CHR '']'' # r) = Some (xs, r)"
        using ih n n' Cons by (intro elems_roundtrip) simp_all
      have "parse_value (Suc n') (CHR ''['' # c # (t @ CHR '']'' # r))
              = map_option (apfst JArr) (parse_elems n' (c # (t @ CHR '']'' # r)))"
        by (rule pv_arr[OF c(2)])
      then show ?thesis using e t by (simp add: n')
    qed
  qed
next
  case (JObj ms)
  then have ih: "\<forall>m \<in> set ms. rt (snd m)" and d: "distinct (map fst ms)"
    by (auto simp: snds.simps)
  show ?case unfolding rt_def
  proof (intro allI impI)
    fix n r assume n: "2 * length (JSON_stringify (JObj ms)) \<le> n"
    then obtain n' where n': "n = Suc n'" by (cases n) auto
    have s: "JSON_stringify (JObj ms) = ''{'' @ join '','' (map member_text ms) @ ''}''"
      by (simp add: member_text_def[abs_def])
    show "parse_value n (JSON_stringify (JObj ms) @ r) = Some (JObj ms, r)"
    proof (cases ms)
      case Nil
      then show ?thesis using pv_obj_empty[of n' r] n' by simp
    next
      case (Cons y ys)
      let ?j = "join '','' (map member_text ms)"
      obtain t0 where "member_text y = dq # t0" using member_text_hd[of y] by auto
      then have "\<exists>t. ?j = dq # t" using Cons by (cases ys) simp_all
      then obtain t where t: "?j = dq # t" ..
      have e: "parse_members n' (?j @ CHR ''}'' # r) = Some (ms, r)"
        using ih n n' Cons s by (intro members_roundtrip) simp_all
      have "parse_value (Suc n') (CHR ''{'' # dq # (t @ CHR ''}'' # r))
              = map_option (apfst members_obj) (parse_members n' (dq # (t @ CHR ''}'' # r)))"
        by (rule pv_obj)
      then show ?thesis using e t s d by (simp add: n' members_obj_distinct)
    qed
  qed
qed

lemma JSON_roundtrip: "wf_json v \<Longrightarrow> JSON_parse (JSON_stringify v) = Some v"
proof -
  assume "wf_json v"
  then have "rt v" by (rule rt_all)
  then have "parse_value (2 * length (JSON_stringify v) + 2) (JSON_stringify v @ []) = Some (v, [])"
    by (rule rt_def[THEN iffD1, rule_format]) (simp_all add: ok_rest_def)
  then show ?thesis by (simp add: JSON_parse_def skip_ws_def)
qed

subsection \<open>The parser never fails for want of fuel\<close>

text \<open>
  A parse consumes input, and a parse that succeeds with some fuel succeeds with any fuel
  above twice the length it consumed. So \<open>JSON_parse\<close> returns a value exactly when some
  fuel parses the text to that value with only white space left.
\<close>

lemma skip_ws_length: "length (skip_ws s) \<le> length s"
  by (simp add: skip_ws_def length_dropWhile_le)

lemma skip_ws_Cons_length: "skip_ws s = c # cs \<Longrightarrow> length cs < length s"
  using skip_ws_length[of s] by simp

lemma unescape_shorter: "unescape s = Some (x, r) \<Longrightarrow> length r < length s"
proof (induction s arbitrary: x rule: length_induct)
  case (1 s)
  then have ih: "\<And>ys y. length ys < length s \<Longrightarrow> unescape ys = Some (y, r) \<Longrightarrow> length r < length ys"
    by blast
  show ?case
  proof (cases s)
    case Nil
    with 1(2) show ?thesis by simp
  next
    case (Cons c cs)
    from 1(2) Cons show ?thesis
      apply (auto split: if_splits list.splits option.splits prod.splits)
        apply (drule ih[rotated], simp, simp)+
      done
  qed
qed

lemma parse_number_shorter: "parse_number s = Some (x, r) \<Longrightarrow> length r < length s"
proof -
  assume a: "parse_number s = Some (x, r)"
  have d: "length (dropWhile is_digit t) \<le> length t" for t
    by (rule length_dropWhile_le)
  show ?thesis
  proof (cases s)
    case Nil
    with a show ?thesis by (simp add: parse_number_def)
  next
    case (Cons c cs)
    show ?thesis
    proof (cases "c = CHR ''-''")
      case True
      with a Cons d[of cs] show ?thesis
        by (cases cs) (auto simp: parse_number_def Let_def split: if_splits)
    next
      case False
      with a Cons d[of cs] show ?thesis
        by (auto simp: parse_number_def Let_def split: if_splits)
    qed
  qed
qed


lemma drop_shorter: "length (drop k (c # cs)) \<le> length cs" if "0 < k"
  using that by (cases k) simp_all

lemma parse_value_consumes_step:
  assumes e: "\<And>s vs r. parse_elems n s = Some (vs, r) \<Longrightarrow> length r < length s"
    and m: "\<And>s ms r. parse_members n s = Some (ms, r) \<Longrightarrow> length r < length s"
    and p: "parse_value (Suc n) s = Some (v, r)"
  shows "length r < length s"
proof (cases "skip_ws s")
  case Nil
  with p show ?thesis by (simp add: parse_value.simps)
next
  case (Cons c cs)
  have l: "length cs < length s" by (rule skip_ws_Cons_length[OF Cons])
  consider (str) "c = dq" | (arr) "c \<noteq> dq" "c = CHR ''[''" | (ob) "c \<noteq> dq" "c \<noteq> CHR ''[''" "c = CHR ''{''"
    | (atom) "c \<noteq> dq" "c \<noteq> CHR ''[''" "c \<noteq> CHR ''{''"
    by blast
  then show ?thesis
  proof cases
    case str
    with p Cons obtain x where "unescape cs = Some (x, r)"
      by (auto simp: parse_value.simps)
    from unescape_shorter[OF this] l show ?thesis by simp
  next
    case arr
    show ?thesis
    proof (cases "skip_ws cs")
      case Nil
      with p Cons arr show ?thesis by (simp add: parse_value.simps)
    next
      case c2: (Cons c' r')
      show ?thesis
      proof (cases "c' = CHR '']''")
        case True
        with p Cons arr c2 have "r = r'" by (simp add: parse_value.simps)
        with skip_ws_Cons_length[OF c2] l show ?thesis by simp
      next
        case False
        with p Cons arr c2 obtain xs where "parse_elems n cs = Some (xs, r)"
          by (auto simp: parse_value.simps)
        from e[OF this] l show ?thesis by simp
      qed
    qed
  next
    case ob
    show ?thesis
    proof (cases "skip_ws cs")
      case Nil
      with p Cons ob show ?thesis by (simp add: parse_value.simps)
    next
      case c2: (Cons c' r')
      show ?thesis
      proof (cases "c' = CHR ''}''")
        case True
        with p Cons ob c2 have "r = r'" by (simp add: parse_value.simps)
        with skip_ws_Cons_length[OF c2] l show ?thesis by simp
      next
        case False
        with p Cons ob c2 obtain xs where "parse_members n cs = Some (xs, r)"
          by (auto simp: parse_value.simps)
        from m[OF this] l show ?thesis by simp
      qed
    qed
  next
    case atom
    have d4: "length (drop 4 (c # cs)) \<le> length cs" and d5: "length (drop 5 (c # cs)) \<le> length cs"
      by (simp_all add: drop_shorter)
    from p Cons atom have
      "r = drop 4 (c # cs) \<or> r = drop 5 (c # cs) \<or> (\<exists>x. parse_number (c # cs) = Some (x, r))"
      by (auto simp: parse_value.simps split: if_splits)
    then show ?thesis
      using d4 d5 l parse_number_shorter[of "c # cs" _ r] by auto
  qed
qed


lemma parse_elems_Suc_inv:
  assumes "parse_elems (Suc n) s = Some (vs, r)"
  obtains v r1 c r' where "parse_value n s = Some (v, r1)" "skip_ws r1 = c # r'"
    "(c = CHR '']'' \<and> vs = [v] \<and> r = r') \<or>
     (c \<noteq> CHR '']'' \<and> c = CHR '','' \<and> (\<exists>vs'. parse_elems n r' = Some (vs', r) \<and> vs = v # vs'))"
  using assms
  by (auto simp: parse_elems.simps split: option.splits list.splits if_splits)

lemma parse_members_Suc_inv:
  assumes "parse_members (Suc n) s = Some (ms, r)"
  obtains cs k r1 r2 v r3 c3 r4 where "skip_ws s = dq # cs" "unescape cs = Some (k, r1)"
    "skip_ws r1 = CHR '':'' # r2" "parse_value n r2 = Some (v, r3)" "skip_ws r3 = c3 # r4"
    "(c3 = CHR ''}'' \<and> ms = [(k, v)] \<and> r = r4) \<or>
     (c3 \<noteq> CHR ''}'' \<and> c3 = CHR '','' \<and> (\<exists>ms'. parse_members n r4 = Some (ms', r) \<and> ms = (k, v) # ms'))"
  using assms
  by (auto simp: parse_members.simps split: option.splits list.splits if_splits)

lemma parse_consumes:
  "(\<forall>s v r. parse_value n s = Some (v, r) \<longrightarrow> length r < length s) \<and>
   (\<forall>s vs r. parse_elems n s = Some (vs, r) \<longrightarrow> length r < length s) \<and>
   (\<forall>s ms r. parse_members n s = Some (ms, r) \<longrightarrow> length r < length s)"
proof (induction n)
  case 0
  show ?case by (simp add: parse_value.simps parse_elems.simps parse_members.simps)
next
  case (Suc n)
  then have v: "\<And>s v r. parse_value n s = Some (v, r) \<Longrightarrow> length r < length s"
    and e: "\<And>s vs r. parse_elems n s = Some (vs, r) \<Longrightarrow> length r < length s"
    and m: "\<And>s ms r. parse_members n s = Some (ms, r) \<Longrightarrow> length r < length s"
    by blast+
  show ?case
  proof (intro conjI allI impI)
    fix s x r assume p: "parse_value (Suc n) s = Some (x, r)"
    show "length r < length s"
      by (rule parse_value_consumes_step[of n s x r]) (erule e, erule m, rule p)
  next
    fix s vs r assume "parse_elems (Suc n) s = Some (vs, r)"
    then show "length r < length s"
    proof (rule parse_elems_Suc_inv)
      fix x r1 c r'
      assume a: "parse_value n s = Some (x, r1)" "skip_ws r1 = c # r'"
        "(c = CHR '']'' \<and> vs = [x] \<and> r = r') \<or>
         (c \<noteq> CHR '']'' \<and> c = CHR '','' \<and> (\<exists>vs'. parse_elems n r' = Some (vs', r) \<and> vs = x # vs'))"
      from v[OF a(1)] skip_ws_Cons_length[OF a(2)] a(3) e show ?thesis
        by (auto dest!: e)
    qed
  next
    fix s ms r assume "parse_members (Suc n) s = Some (ms, r)"
    then show "length r < length s"
    proof (rule parse_members_Suc_inv)
      fix cs k r1 r2 x r3 c3 r4
      assume a: "skip_ws s = dq # cs" "unescape cs = Some (k, r1)"
        "skip_ws r1 = CHR '':'' # r2" "parse_value n r2 = Some (x, r3)" "skip_ws r3 = c3 # r4"
        "(c3 = CHR ''}'' \<and> ms = [(k, x)] \<and> r = r4) \<or>
         (c3 \<noteq> CHR ''}'' \<and> c3 = CHR '','' \<and> (\<exists>ms'. parse_members n r4 = Some (ms', r) \<and> ms = (k, x) # ms'))"
      from skip_ws_Cons_length[OF a(1)] unescape_shorter[OF a(2)] skip_ws_Cons_length[OF a(3)]
        v[OF a(4)] skip_ws_Cons_length[OF a(5)] a(6) show ?thesis
        by (auto dest!: m)
    qed
  qed
qed


lemmas value_consumes = parse_consumes[THEN conjunct1, rule_format]
lemmas elems_consumes = parse_consumes[THEN conjunct2, THEN conjunct1, rule_format]
lemmas members_consumes = parse_consumes[THEN conjunct2, THEN conjunct2, rule_format]

lemma parse_value_fuel_step:
  assumes e: "\<And>s vs r m. parse_elems n s = Some (vs, r) \<Longrightarrow> 2 * (length s - length r) + 1 \<le> m
                 \<Longrightarrow> parse_elems m s = Some (vs, r)"
    and mb: "\<And>s ms r m. parse_members n s = Some (ms, r) \<Longrightarrow> 2 * (length s - length r) + 1 \<le> m
                 \<Longrightarrow> parse_members m s = Some (ms, r)"
    and p: "parse_value (Suc n) s = Some (v, r)"
    and k: "2 * (length s - length r) \<le> k"
  shows "parse_value k s = Some (v, r)"
proof -
  have lr: "length r < length s" by (rule value_consumes[OF p])
  with k obtain k' where k': "k = Suc k'" by (cases k) auto
  show ?thesis
  proof (cases "skip_ws s")
    case Nil
    with p show ?thesis by (simp add: parse_value.simps)
  next
    case (Cons c cs)
    have l: "length cs < length s" by (rule skip_ws_Cons_length[OF Cons])
    consider (arr) "c \<noteq> dq" "c = CHR ''[''" | (ob) "c \<noteq> dq" "c \<noteq> CHR ''[''" "c = CHR ''{''"
      | (atom) "c = dq \<or> (c \<noteq> CHR ''['' \<and> c \<noteq> CHR ''{'')"
      by blast
    then show ?thesis
    proof cases
      case atom
      then have "parse_value (Suc k') s = parse_value (Suc n) s"
        using Cons by (auto simp: parse_value.simps)
      with p k' show ?thesis by simp
    next
      case arr
      show ?thesis
      proof (cases "skip_ws cs")
        case Nil
        with p Cons arr show ?thesis by (simp add: parse_value.simps)
      next
        case c2: (Cons c' r')
        show ?thesis
        proof (cases "c' = CHR '']''")
          case True
          then have "parse_value (Suc k') s = parse_value (Suc n) s"
            using Cons arr c2 by (simp add: parse_value.simps)
          with p k' show ?thesis by simp
        next
          case False
          with p Cons arr c2 obtain xs where x: "parse_elems n cs = Some (xs, r)" and v: "v = JArr xs"
            by (auto simp: parse_value.simps)
          have "length r < length cs" by (rule elems_consumes[OF x])
          then have "2 * (length cs - length r) + 1 \<le> k'" using k k' l by simp
          from e[OF x this] show ?thesis
            using Cons arr c2 False v by (simp add: k' parse_value.simps)
        qed
      qed
    next
      case ob
      show ?thesis
      proof (cases "skip_ws cs")
        case Nil
        with p Cons ob show ?thesis by (simp add: parse_value.simps)
      next
        case c2: (Cons c' r')
        show ?thesis
        proof (cases "c' = CHR ''}''")
          case True
          then have "parse_value (Suc k') s = parse_value (Suc n) s"
            using Cons ob c2 by (simp add: parse_value.simps)
          with p k' show ?thesis by simp
        next
          case False
          with p Cons ob c2 obtain xs where x: "parse_members n cs = Some (xs, r)" and v: "v = members_obj xs"
            by (auto simp: parse_value.simps)
          have "length r < length cs" by (rule members_consumes[OF x])
          then have "2 * (length cs - length r) + 1 \<le> k'" using k k' l by simp
          from mb[OF x this] show ?thesis
            using Cons ob c2 False v by (simp add: k' parse_value.simps)
        qed
      qed
    qed
  qed
qed

lemma parse_fuel:
  "(\<forall>s v r m. parse_value n s = Some (v, r) \<longrightarrow> 2 * (length s - length r) \<le> m \<longrightarrow>
       parse_value m s = Some (v, r)) \<and>
   (\<forall>s vs r m. parse_elems n s = Some (vs, r) \<longrightarrow> 2 * (length s - length r) + 1 \<le> m \<longrightarrow>
       parse_elems m s = Some (vs, r)) \<and>
   (\<forall>s ms r m. parse_members n s = Some (ms, r) \<longrightarrow> 2 * (length s - length r) + 1 \<le> m \<longrightarrow>
       parse_members m s = Some (ms, r))"
proof (induction n)
  case 0
  show ?case by (simp add: parse_value.simps parse_elems.simps parse_members.simps)
next
  case (Suc n)
  then have v: "\<And>s v r m. parse_value n s = Some (v, r) \<Longrightarrow> 2 * (length s - length r) \<le> m
                 \<Longrightarrow> parse_value m s = Some (v, r)"
    and e: "\<And>s vs r m. parse_elems n s = Some (vs, r) \<Longrightarrow> 2 * (length s - length r) + 1 \<le> m
                 \<Longrightarrow> parse_elems m s = Some (vs, r)"
    and mb: "\<And>s ms r m. parse_members n s = Some (ms, r) \<Longrightarrow> 2 * (length s - length r) + 1 \<le> m
                 \<Longrightarrow> parse_members m s = Some (ms, r)"
    by blast+
  show ?case
  proof (intro conjI allI impI)
    fix s x r k assume p: "parse_value (Suc n) s = Some (x, r)" and k: "2 * (length s - length r) \<le> k"
    show "parse_value k s = Some (x, r)"
      by (rule parse_value_fuel_step[of n s x r k]) (erule e, assumption, erule mb, assumption, rule p, rule k)
  next
    fix s vs r k
    assume p: "parse_elems (Suc n) s = Some (vs, r)" and k: "2 * (length s - length r) + 1 \<le> k"
    then obtain k' where k': "k = Suc k'" by (cases k) auto
    from p show "parse_elems k s = Some (vs, r)"
    proof (rule parse_elems_Suc_inv)
      fix x r1 c r'
      assume a: "parse_value n s = Some (x, r1)" "skip_ws r1 = c # r'"
        "(c = CHR '']'' \<and> vs = [x] \<and> r = r') \<or>
         (c \<noteq> CHR '']'' \<and> c = CHR '','' \<and> (\<exists>vs'. parse_elems n r' = Some (vs', r) \<and> vs = x # vs'))"
      have l1: "length r1 < length s" by (rule value_consumes[OF a(1)])
      have l2: "length r' < length r1" by (rule skip_ws_Cons_length[OF a(2)])
      have l3: "length r \<le> length r'"
        using a(3) elems_consumes[of n r' _ r] by auto
      have "2 * (length s - length r1) \<le> k'" using k k' l1 l2 l3 by simp
      from v[OF a(1) this] have pv: "parse_value k' s = Some (x, r1)" .
      from a(3) show ?thesis
      proof
        assume "c = CHR '']'' \<and> vs = [x] \<and> r = r'"
        then show ?thesis using pv a(2) by (simp add: k' parse_elems.simps)
      next
        assume b: "c \<noteq> CHR '']'' \<and> c = CHR '','' \<and> (\<exists>vs'. parse_elems n r' = Some (vs', r) \<and> vs = x # vs')"
        then obtain vs' where pe: "parse_elems n r' = Some (vs', r)" and vs: "vs = x # vs'" by blast
        have "length r < length r'" by (rule elems_consumes[OF pe])
        then have "2 * (length r' - length r) + 1 \<le> k'" using k k' l1 l2 by simp
        from e[OF pe this] show ?thesis using pv a(2) b vs by (simp add: k' parse_elems.simps)
      qed
    qed
  next
    fix s ms r k
    assume p: "parse_members (Suc n) s = Some (ms, r)" and k: "2 * (length s - length r) + 1 \<le> k"
    then obtain k' where k': "k = Suc k'" by (cases k) auto
    from p show "parse_members k s = Some (ms, r)"
    proof (rule parse_members_Suc_inv)
      fix cs key r1 r2 x r3 c3 r4
      assume a: "skip_ws s = dq # cs" "unescape cs = Some (key, r1)"
        "skip_ws r1 = CHR '':'' # r2" "parse_value n r2 = Some (x, r3)" "skip_ws r3 = c3 # r4"
        "(c3 = CHR ''}'' \<and> ms = [(key, x)] \<and> r = r4) \<or>
         (c3 \<noteq> CHR ''}'' \<and> c3 = CHR '','' \<and> (\<exists>ms'. parse_members n r4 = Some (ms', r) \<and> ms = (key, x) # ms'))"
      have l0: "length cs < length s" by (rule skip_ws_Cons_length[OF a(1)])
      have l1: "length r1 < length cs" by (rule unescape_shorter[OF a(2)])
      have l2: "length r2 < length r1" by (rule skip_ws_Cons_length[OF a(3)])
      have l3: "length r3 < length r2" by (rule value_consumes[OF a(4)])
      have l4: "length r4 < length r3" by (rule skip_ws_Cons_length[OF a(5)])
      have l5: "length r \<le> length r4"
        using a(6) members_consumes[of n r4 _ r] by auto
      have "2 * (length r2 - length r3) \<le> k'" using k k' l0 l1 l2 l3 l4 l5 by simp
      from v[OF a(4) this] have pv: "parse_value k' r2 = Some (x, r3)" .
      from a(6) show ?thesis
      proof
        assume "c3 = CHR ''}'' \<and> ms = [(key, x)] \<and> r = r4"
        then show ?thesis using pv a by (simp add: k' parse_members.simps)
      next
        assume b: "c3 \<noteq> CHR ''}'' \<and> c3 = CHR '','' \<and> (\<exists>ms'. parse_members n r4 = Some (ms', r) \<and> ms = (key, x) # ms')"
        then obtain ms' where pm: "parse_members n r4 = Some (ms', r)" and ms: "ms = (key, x) # ms'" by blast
        have "length r < length r4" by (rule members_consumes[OF pm])
        then have "2 * (length r4 - length r) + 1 \<le> k'" using k k' l0 l1 l2 l3 l4 by simp
        from mb[OF pm this] show ?thesis using pv a(1-5) b ms by (simp add: k' parse_members.simps)
      qed
    qed
  qed
qed

lemma JSON_parse_any_fuel:
  "JSON_parse s = Some v \<longleftrightarrow> (\<exists>n r. parse_value n s = Some (v, r) \<and> skip_ws r = [])"
proof
  assume j: "JSON_parse s = Some v"
  show "\<exists>n r. parse_value n s = Some (v, r) \<and> skip_ws r = []"
  proof (cases "parse_value (2 * length s + 2) s")
    case None
    with j show ?thesis by (simp add: JSON_parse_def)
  next
    case (Some p)
    obtain v' r where p: "p = (v', r)" by (cases p)
    from j Some p have "v' = v \<and> skip_ws r = []"
      by (simp add: JSON_parse_def split: if_splits)
    with Some p show ?thesis by blast
  qed
next
  assume "\<exists>n r. parse_value n s = Some (v, r) \<and> skip_ws r = []"
  then obtain n r where p: "parse_value n s = Some (v, r)" and w: "skip_ws r = []" by blast
  have "2 * (length s - length r) \<le> 2 * length s + 2" by simp
  with parse_fuel[of n] p have "parse_value (2 * length s + 2) s = Some (v, r)" by blast
  then show "JSON_parse s = Some v" using w by (simp add: JSON_parse_def)
qed

subsection \<open>Stores and identifiers\<close>

lemma with_id_defined:
  "get_prop (with_id oid d) ''_id'' \<noteq> Undefined \<and> get_prop (with_id oid d) ''_id'' \<noteq> Json JNull"
  by (cases "get_prop d ''_id'' = Undefined \<or> get_prop d ''_id'' = Json JNull")
     (simp_all add: with_id_def get_prop_update)

lemma map_of_bson_doc: "map_of (bson_doc d) k = map_option bson_store (map_of d k)"
  by (induction d) (auto simp: bson_doc_def)

lemma get_prop_bson_doc:
  "get_prop d k \<noteq> Undefined \<Longrightarrow> get_prop (bson_doc d) k = get_prop d k"
  by (auto simp: get_prop_def map_of_bson_doc bson_store_def split: option.splits)

lemma fold_max_ge: "(a::int) \<le> fold max xs a"
proof (induction xs arbitrary: a)
  case Nil then show ?case by simp
next
  case (Cons x xs)
  have "a \<le> max x a" by simp
  also have "\<dots> \<le> fold max xs (max x a)" by (rule Cons.IH)
  finally show ?case by simp
qed

lemma fold_max_mem: "x \<in> set xs \<Longrightarrow> (x::int) \<le> fold max xs a"
proof (induction xs arbitrary: a)
  case Nil then show ?case by simp
next
  case (Cons y ys)
  show ?case
  proof (cases "x = y")
    case True
    have "max y a \<le> fold max ys (max y a)" by (rule fold_max_ge)
    with True show ?thesis by simp
  next
    case False
    with Cons show ?thesis by simp
  qed
qed


lemma next_id_gt_rows: "r \<in> set (table_rows db) \<Longrightarrow> row_id r < next_id db"
  using fold_max_mem[of "row_id r" "map row_id (table_rows db)" "last_id db"] by (simp add: next_id_def)


subsection \<open>Rows and documents sent to the client\<close>

lemma get_prop_processRow:
  "get_prop (processRow row) k =
     (if k = ''readingDuration'' \<or> k = ''_id'' then Undefined
      else if k = ''finalReadingDuration'' then get_prop row ''readingDuration''
      else if k = ''id'' then get_prop row ''_id''
      else get_prop row k)"
  by (simp add: processRow_def get_prop_update get_prop_delete)

lemma map_of_spread: "map_of (spread row) k = map_option Json (map_of row k)"
  by (induction row) (auto simp: spread_def)

lemma get_prop_sqlite_row:
  "get_prop (sqlite_row row) k =
     (if k = ''readingDuration'' then Undefined
      else if k = ''finalReadingDuration'' then js (map_of row ''readingDuration'')
      else if k = ''consentAgreed'' then Json (JBool (consent_flag (map_of row ''consentAgreed'')))
      else if k = ''q1_c'' then Json (parse_q1_c (map_of row ''q1_c''))
      else js (map_of row k))"
  by (simp add: sqlite_row_def Let_def get_prop_update get_prop_delete get_prop_spread update_conv')

lemma map_of_row_object: "map_of (row_object r) k = map_option sql_to_js (map_of r k)"
  by (induction r) (auto simp: row_object_def)

subsection \<open>The newest row of the SQLite table\<close>

lemma insort_key_last:
  "\<forall>y \<in> set ys. f y \<le> f x \<Longrightarrow> f a \<le> f x \<Longrightarrow> insort_key f a (ys @ [x]) = insort_key f a ys @ [x]"
  by (induction ys) auto

lemma sort_key_snoc:
  assumes "\<forall>y \<in> set ys. f y \<le> (f x :: int)"
  shows "sort_key f (ys @ [x]) = sort_key f ys @ [x]"
  using assms
proof (induction ys)
  case Nil
  then show ?case by simp
next
  case (Cons a ys)
  then have "sort_key f (ys @ [x]) = sort_key f ys @ [x]" by simp
  moreover have "\<forall>y \<in> set (sort_key f ys). f y \<le> f x" using Cons.prems by simp
  ultimately show ?case using Cons.prems by (simp add: insort_key_last)
qed

lemma select_all_after_insert:
  assumes "run_insert env db ps = Inr (i, db')"
  shows "select_all db' = row_object (new_row i (current_timestamp env) ps) # select_all db"
proof -
  from assms have i: "i = next_id db"
    and d: "table_rows db' = table_rows db @ [new_row i (current_timestamp env) ps]"
    by (auto simp: run_insert_def Let_def split: option.splits if_splits)
  have "row_id (new_row i (current_timestamp env) ps) = i"
    by (simp add: row_id_def new_row_def)
  then have "\<forall>y \<in> set (table_rows db). row_id y \<le> row_id (new_row i (current_timestamp env) ps)"
    using next_id_gt_rows[of _ db] i by (auto simp: less_imp_le)
  then show ?thesis by (simp add: select_all_def d sort_key_snoc)
qed

lemma submit_sqlite_201:
  "status (sent (submit_sqlite env db data)) = 201 \<longleftrightarrow>
     (\<exists>db'. run_insert env db (insert_params data) = Inr (next_id db, db'))"
  by (auto simp: submit_sqlite_def run_insert_def Let_def split: option.splits sum.splits if_splits)

lemma created_submitted: "created \<lparr>status = 201, body = submitted_body i\<rparr> = Some i"
  by (simp add: created_def submitted_body_def get_prop_def)

lemma sqlite_cycle:
  assumes "status (sent (submit_sqlite env db data)) = 201" and "fault env' = None"
  shows "cycle submit_sqlite (results_sqlite env') env db data =
           Some (sqlite_row (row_object (new_row (next_id db) (current_timestamp env) (insert_params data))))"
proof -
  from assms(1) obtain db' where r: "run_insert env db (insert_params data) = Inr (next_id db, db')"
    by (auto simp: submit_sqlite_201)
  let ?new = "new_row (next_id db) (current_timestamp env) (insert_params data)"
  have s: "select_all db' = row_object ?new # select_all db"
    by (rule select_all_after_insert[OF r])
  have i: "get_prop (sqlite_row (row_object ?new)) ''id'' = Json (JNum (next_id db))"
    by (simp add: get_prop_sqlite_row map_of_row_object new_row_def)
  have o: "submit_sqlite env db data =
      \<lparr>sent = \<lparr>status = 201, body = submitted_body (Json (JNum (next_id db)))\<rparr>,
       unhandled = None, db_after = db'\<rparr>"
    using r by (simp add: submit_sqlite_def)
  have c1: "created (sent (submit_sqlite env db data)) = Some (Json (JNum (next_id db)))"
    by (simp add: o created_submitted)
  have d1: "db_after (submit_sqlite env db data) = db'"
    by (simp add: o)
  have f1: "fetched_rows (sent (results_sqlite env' db')) = map sqlite_row (select_all db')"
    using assms(2) by (simp add: results_sqlite_def fetched_rows_def)
  have f2: "fetched (Json (JNum (next_id db))) (sent (results_sqlite env' db')) = Some (sqlite_row (row_object ?new))"
    unfolding fetched_def f1 s using i by simp
  show ?thesis
    unfolding cycle_def Let_def c1 d1 using f2 by simp
qed

subsection \<open>The newest document of the MongoDB collection\<close>

lemma find_unique:
  assumes "x \<in> set xs" "P x" "\<forall>y \<in> set xs. y \<noteq> x \<longrightarrow> \<not> P y"
  shows "find P xs = Some x"
  using assms
proof (induction xs)
  case Nil
  then show ?case by simp
next
  case (Cons a xs)
  show ?case
  proof (cases "a = x")
    case True
    then show ?thesis using Cons.prems(2) by simp
  next
    case False
    then have n: "\<not> P a" using Cons.prems(3) by simp
    have m: "x \<in> set xs" using False Cons.prems(1) by auto
    have u: "\<forall>y \<in> set xs. y \<noteq> x \<longrightarrow> \<not> P y" using Cons.prems(3) by simp
    have "find P xs = Some x" by (rule Cons.IH[OF m Cons.prems(2) u])
    then show ?thesis using n by simp
  qed
qed

lemma find_in_map: "find P (map f xs) = map_option f (find (\<lambda>x. P (f x)) xs)"
  by (induction xs) simp_all

lemma insertOne_Inr_iff:
  "insertOne env coll d = Inr (i, c') \<longleftrightarrow>
     op_fault env = None \<and> i = get_prop (with_id (fresh_oid env) d) ''_id'' \<and>
     i \<notin> set (map (\<lambda>x. get_prop x ''_id'') coll) \<and>
     c' = coll @ [bson_doc (with_id (fresh_oid env) d)]"
  by (cases "op_fault env") (auto simp: insertOne_def Let_def)

lemma submit_mongo_201:
  "status (sent (submit_mongo env coll data)) = 201 \<longleftrightarrow>
     connect_fault env = None \<and>
     insertOne env coll (docToInsert (now env) data) =
       Inr (get_prop (stored_doc env data) ''_id'', coll @ [stored_doc env data])"
proof (cases "connect_fault env")
  case (Some m)
  then show ?thesis by (simp add: submit_mongo_def mongo_submit_try_def)
next
  case None
  let ?d = "docToInsert (now env) data"
  have id: "get_prop (stored_doc env data) ''_id'' = get_prop (with_id (fresh_oid env) ?d) ''_id''"
    using with_id_defined[of "fresh_oid env" ?d] by (simp add: stored_doc_def get_prop_bson_doc)
  show ?thesis
  proof (cases "insertOne env coll ?d")
    case (Inl m)
    then show ?thesis using None by (simp add: submit_mongo_def mongo_submit_try_def)
  next
    case (Inr p)
    obtain i c' where p: "p = (i, c')" by (cases p)
    from Inr p have "i = get_prop (with_id (fresh_oid env) ?d) ''_id''"
      and "c' = coll @ [bson_doc (with_id (fresh_oid env) ?d)]"
      by (simp_all add: insertOne_Inr_iff)
    then show ?thesis using None Inr p id
      by (simp add: submit_mongo_def mongo_submit_try_def stored_doc_def)
  qed
qed

lemma submit_mongo_guarded_sent:
  "sent (submit_mongo_guarded env coll data) = sent (submit_mongo env coll data)"
  "db_after (submit_mongo_guarded env coll data) = db_after (submit_mongo env coll data)"
  by (simp_all add: submit_mongo_def submit_mongo_guarded_def split: prod.splits)

lemma mongo_fetch_new:
  assumes ok: "status (sent (submit_mongo env coll data)) = 201"
    and env': "connect_fault env' = None" "op_fault env' = None"
    and found: "find_sorted (db_after (submit_mongo env coll data)) found"
  shows "fetched (get_prop (stored_doc env data) ''_id'') (mongo_results_try env' found)
           = Some (processRow (stored_doc env data))"
proof -
  let ?doc = "stored_doc env data"
  let ?i = "get_prop ?doc ''_id''"
  from ok have c: "connect_fault env = None"
    and ins: "insertOne env coll (docToInsert (now env) data) = Inr (?i, coll @ [?doc])"
    by (simp_all add: submit_mongo_201)
  have after: "db_after (submit_mongo env coll data) = coll @ [?doc]"
    using c ins by (simp add: submit_mongo_def mongo_submit_try_def)
  have "?i \<notin> set (map (\<lambda>x. get_prop x ''_id'') coll)"
    using ins[unfolded insertOne_Inr_iff] by blast
  then have fresh: "\<forall>d \<in> set coll. get_prop d ''_id'' \<noteq> ?i"
    by (auto simp: image_iff)
  have "mset found = mset (coll @ [?doc])"
    using found unfolding after find_sorted_def by blast
  then have "set found = set (coll @ [?doc])"
    by (rule mset_eq_setD)
  then have "find (\<lambda>d. get_prop d ''_id'' = ?i) found = Some ?doc"
    using fresh by (intro find_unique) auto
  then have "find (\<lambda>row. get_prop row ''id'' = ?i) (map processRow found) = Some (processRow ?doc)"
    by (simp add: find_in_map get_prop_processRow)
  then show ?thesis using env'
    by (simp add: fetched_def fetched_rows_def mongo_results_try_def)
qed

lemma mongo_cycle:
  assumes "status (sent (submit_mongo env coll data)) = 201"
    and "connect_fault env' = None" "op_fault env' = None"
    and "find_sorted (db_after (submit_mongo env coll data)) found"
  shows "cycle submit_mongo (\<lambda>c. results_mongo env' c found) env coll data
           = Some (processRow (stored_doc env data))"
    and "cycle submit_mongo_guarded (\<lambda>c. results_mongo_guarded env' c found) env coll data
           = Some (processRow (stored_doc env data))"
proof -
  from assms(1) have c: "connect_fault env = None"
    and ins: "insertOne env coll (docToInsert (now env) data) =
       Inr (get_prop (stored_doc env data) ''_id'', coll @ [stored_doc env data])"
    by (simp_all add: submit_mongo_201)
  have s: "sent (submit_mongo env coll data) =
      \<lparr>status = 201, body = submitted_body (get_prop (stored_doc env data) ''_id'')\<rparr>"
    using c ins by (simp add: submit_mongo_def mongo_submit_try_def)
  show "cycle submit_mongo (\<lambda>c. results_mongo env' c found) env coll data
           = Some (processRow (stored_doc env data))"
    using mongo_fetch_new[OF assms]
    by (simp add: cycle_def Let_def s created_submitted results_mongo_def)
  show "cycle submit_mongo_guarded (\<lambda>c. results_mongo_guarded env' c found) env coll data
           = Some (processRow (stored_doc env data))"
    using mongo_fetch_new[OF assms]
    by (simp add: cycle_def Let_def submit_mongo_guarded_sent s created_submitted results_mongo_guarded_def)
qed

subsection \<open>The fields of a stored document\<close>

lemma map_of_with_id:
  "map_of (with_id oid d) k =
     (if k = ''_id'' \<and> (get_prop d ''_id'' = Undefined \<or> get_prop d ''_id'' = Json JNull)
      then Some (ObjectId oid) else map_of d k)"
  by (simp add: with_id_def update_conv')

lemma map_of_docToInsert:
  "map_of (docToInsert t data) k =
     (if k = ''finalReadingDuration'' then None
      else if k = ''consentAgreed'' then
        Some (Json (JBool (toLowerCase (String_js (map_of data ''consentAgreed'')) = ''true'')))
      else if k = ''timestamp'' then Some (Date t)
      else if k = ''readingDuration'' then Some (js (map_of data ''finalReadingDuration''))
      else if k = ''q1_c'' then Some (Json (wrap_q1_c (map_of data ''q1_c'')))
      else map_option Json (map_of data k))"
  by (simp add: docToInsert_def update_conv' delete_conv' map_of_spread)

lemma get_prop_stored_doc:
  "get_prop (stored_doc env data) ''consentAgreed'' =
     Json (JBool (toLowerCase (String_js (map_of data ''consentAgreed'')) = ''true''))"
  "get_prop (stored_doc env data) ''q1_c'' = Json (wrap_q1_c (map_of data ''q1_c''))"
  "get_prop (stored_doc env data) ''timestamp'' = Date (now env)"
  "get_prop (stored_doc env data) ''readingDuration'' =
     (case map_of data ''finalReadingDuration'' of None \<Rightarrow> Json JNull | Some v \<Rightarrow> Json v)"
  by (simp_all add: stored_doc_def get_prop_def map_of_bson_doc map_of_with_id map_of_docToInsert
      bson_store_def split: option.splits)

subsection \<open>What a submission stores\<close>

lemma new_row_lookup:
  "map_of (new_row i ts (insert_params data)) ''id'' = Some (SInt i)"
  "map_of (new_row i ts (insert_params data)) ''consentAgreed'' =
     Some (SText (consentValue (map_of data ''consentAgreed'')))"
  "map_of (new_row i ts (insert_params data)) ''gradeLevel'' =
     Some (apply_affinity TEXT (bind (map_of data ''gradeLevel'')))"
  "map_of (new_row i ts (insert_params data)) ''q1_c'' =
     Some (SText (JSON_stringify (q1_c_or_empty (map_of data ''q1_c''))))"
  "map_of (new_row i ts (insert_params data)) ''readingDuration'' =
     Some (apply_affinity INTEGER (bind (map_of data ''finalReadingDuration'')))"
  "map_of (new_row i ts (insert_params data)) ''timestamp'' = Some (SText ts)"
  by (simp_all add: new_row_def insert_params_def insert_columns_def)

lemma show_int_0: "show_int 0 = ''0''"
  by code_simp

lemma falsy_String:
  "\<not> truthy c \<Longrightarrow> String_js c \<noteq> ''true'' \<and> String_js c \<noteq> ''1''"
proof (cases c)
  case None
  then show ?thesis by simp
next
  case (Some v)
  assume "\<not> truthy c"
  then show ?thesis using Some by (cases v) (simp_all add: show_int_0)
qed

lemma consent_flag_stored:
  "consent_flag (Some (JStr (consentValue c))) \<longleftrightarrow> String_js c = ''true'' \<or> String_js c = ''1''"
  using falsy_String[of c] by (auto simp: consent_flag_def consentValue_def)

lemma wf_json_member: "wf_json (JObj data) \<Longrightarrow> map_of data k = Some v \<Longrightarrow> wf_json v"
  by (auto dest: map_of_SomeD)

lemma parse_stored_q1_c:
  assumes "wf_json (JObj data)"
  shows "parse_q1_c (Some (JStr (JSON_stringify (q1_c_or_empty (map_of data ''q1_c'')))))
           = q1_c_or_empty (map_of data ''q1_c'')"
proof -
  have "wf_json (q1_c_or_empty (map_of data ''q1_c''))"
    using wf_json_member[OF assms, of "''q1_c''"]
    by (cases "map_of data ''q1_c''") (simp_all add: q1_c_or_empty_def)
  then show ?thesis by (simp add: parse_q1_c_def JSON_roundtrip)
qed

lemma stored_duration_int:
  "sql_to_js (apply_affinity INTEGER (bind (Some (JNum n)))) = JNum n"
  by simp

subsection \<open>The example requests are answered\<close>

lemma ex_sqlite_201: "status (sent (submit_sqlite ok_senv empty_db survey)) = 201"
  by code_simp

lemma ex_mongo_201: "status (sent (submit_mongo ok_menv [] survey)) = 201"
  by code_simp

lemma ex_mongo_found:
  "find_sorted (db_after (submit_mongo ok_menv [] survey)) [stored_doc ok_menv survey]"
  by (simp add: find_sorted_def submit_mongo_def mongo_submit_try_def ok_menv_def insertOne_def
      stored_doc_def Let_def)

lemma ex_no_fault: "fault ok_senv = None" "connect_fault ok_menv = None" "op_fault ok_menv = None"
  by (simp_all add: ok_senv_def ok_menv_def)

lemma ex_survey_wf: "wf_json (JObj survey)"
  by (simp add: survey_def)

subsection \<open>C1: the consent flag after a submit and fetch cycle\<close>

text \<open>
  C1, as amended. After a submission answered with 201 and a fetch that the store serves,
  the fetched \<^verbatim>\<open>consentAgreed\<close> is a boolean. On the MongoDB servers it is true exactly when
  the submitted value, converted to a string and lower-cased, is \<^verbatim>\<open>"true"\<close>. On the SQLite
  server it is true exactly when the submitted value, converted to a string, is
  \<^verbatim>\<open>"true"\<close> or \<^verbatim>\<open>"1"\<close> as written, with no folding of case.
\<close>

theorem consent_after_cycle:
  "(status (sent (submit_sqlite env db data)) = 201 \<longrightarrow> fault env' = None \<longrightarrow>
      (\<exists>row. cycle submit_sqlite (results_sqlite env') env db data = Some row \<and>
         get_prop row ''consentAgreed'' =
           Json (JBool (String_js (map_of data ''consentAgreed'') = ''true'' \<or>
                        String_js (map_of data ''consentAgreed'') = ''1'')))) \<and>
   (status (sent (submit_mongo menv coll data)) = 201 \<longrightarrow>
    connect_fault menv' = None \<longrightarrow> op_fault menv' = None \<longrightarrow>
    find_sorted (db_after (submit_mongo menv coll data)) found \<longrightarrow>
      (\<exists>row. cycle submit_mongo (\<lambda>c. results_mongo menv' c found) menv coll data = Some row \<and>
         get_prop row ''consentAgreed'' =
           Json (JBool (toLowerCase (String_js (map_of data ''consentAgreed'')) = ''true''))) \<and>
      (\<exists>row. cycle submit_mongo_guarded (\<lambda>c. results_mongo_guarded menv' c found) menv coll data
                = Some row \<and>
         get_prop row ''consentAgreed'' =
           Json (JBool (toLowerCase (String_js (map_of data ''consentAgreed'')) = ''true''))))"
proof (intro conjI impI)
  assume "status (sent (submit_sqlite env db data)) = 201" and "fault env' = None"
  then have "cycle submit_sqlite (results_sqlite env') env db data =
      Some (sqlite_row (row_object (new_row (next_id db) (current_timestamp env) (insert_params data))))"
    by (rule sqlite_cycle)
  moreover have "get_prop (sqlite_row (row_object (new_row (next_id db) (current_timestamp env)
        (insert_params data)))) ''consentAgreed'' =
      Json (JBool (String_js (map_of data ''consentAgreed'') = ''true'' \<or>
                   String_js (map_of data ''consentAgreed'') = ''1''))"
    by (simp add: get_prop_sqlite_row map_of_row_object new_row_lookup consent_flag_stored)
  ultimately show "\<exists>row. cycle submit_sqlite (results_sqlite env') env db data = Some row \<and>
         get_prop row ''consentAgreed'' =
           Json (JBool (String_js (map_of data ''consentAgreed'') = ''true'' \<or>
                        String_js (map_of data ''consentAgreed'') = ''1''))"
    by simp
next
  assume a: "status (sent (submit_mongo menv coll data)) = 201"
    "connect_fault menv' = None" "op_fault menv' = None"
    "find_sorted (db_after (submit_mongo menv coll data)) found"
  have f: "get_prop (processRow (stored_doc menv data)) ''consentAgreed'' =
      Json (JBool (toLowerCase (String_js (map_of data ''consentAgreed'')) = ''true''))"
    by (simp add: get_prop_processRow get_prop_stored_doc)
  show "\<exists>row. cycle submit_mongo (\<lambda>c. results_mongo menv' c found) menv coll data = Some row \<and>
         get_prop row ''consentAgreed'' =
           Json (JBool (toLowerCase (String_js (map_of data ''consentAgreed'')) = ''true''))"
    using mongo_cycle(1)[OF a] f by simp
  show "\<exists>row. cycle submit_mongo_guarded (\<lambda>c. results_mongo_guarded menv' c found) menv coll data
                = Some row \<and>
         get_prop row ''consentAgreed'' =
           Json (JBool (toLowerCase (String_js (map_of data ''consentAgreed'')) = ''true''))"
    using mongo_cycle(2)[OF a] f by simp
qed

theorem consent_after_cycle_witness:
  "fetched_field ''consentAgreed'' (cycle submit_sqlite (results_sqlite ok_senv) ok_senv empty_db survey)
     = Json (JBool True) \<and>
   fetched_field ''consentAgreed''
     (cycle submit_mongo (\<lambda>c. results_mongo ok_menv c [stored_doc ok_menv survey]) ok_menv [] survey)
     = Json (JBool True)"
proof -
  have e: "fault ok_senv = None" "connect_fault ok_menv = None" "op_fault ok_menv = None"
    by (simp_all add: ok_senv_def ok_menv_def)
  have s: "String_js (map_of survey ''consentAgreed'') = ''true''"
    by (simp add: survey_def)
  have l: "toLowerCase ''true'' = ''true''"
    by (simp add: toLowerCase_def lower_char_def)
  from consent_after_cycle[of ok_senv empty_db survey ok_senv ok_menv "[]" ok_menv
      "[stored_doc ok_menv survey]"] ex_sqlite_201 ex_mongo_201 ex_mongo_found e
  show ?thesis by (auto simp: fetched_field_def s l)
qed

text \<open>
  The claim as first stated fails on the SQLite server in both directions: consent sent as
  \<^verbatim>\<open>"TRUE"\<close> is fetched as false, and consent sent as \<^verbatim>\<open>"1"\<close> is fetched as true.
\<close>

theorem consent_case_counterexample:
  "toLowerCase (String_js (map_of shouted_consent ''consentAgreed'')) = ''true'' \<and>
   fetched_field ''consentAgreed''
     (cycle submit_sqlite (results_sqlite ok_senv) ok_senv empty_db shouted_consent)
     = Json (JBool False) \<and>
   toLowerCase (String_js (map_of numeric_consent ''consentAgreed'')) \<noteq> ''true'' \<and>
   fetched_field ''consentAgreed''
     (cycle submit_sqlite (results_sqlite ok_senv) ok_senv empty_db numeric_consent)
     = Json (JBool True)"
  by code_simp

subsection \<open>C2: the multi-select answer after a submit and fetch cycle\<close>

text \<open>
  What the servers agree on: a \<^verbatim>\<open>q1_c\<close> submitted as a list is fetched as that list, and an
  omitted \<^verbatim>\<open>q1_c\<close> as the empty list; the MongoDB servers also fetch a \<^verbatim>\<open>q1_c\<close> submitted
  as a non-empty string as the one-element list of that string. What the SQLite server
  fetches for such a string is the last conjunct of its part. (For SQLite the body is a value
  as \<^verbatim>\<open>JSON.parse\<close> builds it: no object has a key twice.)
\<close>

lemma q1_c_lists_after_cycle:
  "(wf_json (JObj data) \<longrightarrow> status (sent (submit_sqlite env db data)) = 201 \<longrightarrow> fault env' = None \<longrightarrow>
      (\<exists>row. cycle submit_sqlite (results_sqlite env') env db data = Some row \<and>
         (\<forall>xs. map_of data ''q1_c'' = Some (JArr xs) \<longrightarrow> get_prop row ''q1_c'' = Json (JArr xs)) \<and>
         (map_of data ''q1_c'' = None \<longrightarrow> get_prop row ''q1_c'' = Json (JArr [])) \<and>
         (\<forall>s. map_of data ''q1_c'' = Some (JStr s) \<longrightarrow> s \<noteq> [] \<longrightarrow>
              get_prop row ''q1_c'' = Json (JStr s)))) \<and>
   (status (sent (submit_mongo menv coll data)) = 201 \<longrightarrow>
    connect_fault menv' = None \<longrightarrow> op_fault menv' = None \<longrightarrow>
    find_sorted (db_after (submit_mongo menv coll data)) found \<longrightarrow>
      (\<exists>row. cycle submit_mongo (\<lambda>c. results_mongo menv' c found) menv coll data = Some row \<and>
         cycle submit_mongo_guarded (\<lambda>c. results_mongo_guarded menv' c found) menv coll data = Some row \<and>
         (\<forall>xs. map_of data ''q1_c'' = Some (JArr xs) \<longrightarrow> get_prop row ''q1_c'' = Json (JArr xs)) \<and>
         (map_of data ''q1_c'' = None \<longrightarrow> get_prop row ''q1_c'' = Json (JArr [])) \<and>
         (\<forall>s. map_of data ''q1_c'' = Some (JStr s) \<longrightarrow> s \<noteq> [] \<longrightarrow>
              get_prop row ''q1_c'' = Json (JArr [JStr s]))))"
proof (intro conjI impI)
  assume wf: "wf_json (JObj data)"
    and "status (sent (submit_sqlite env db data)) = 201" and "fault env' = None"
  then have c: "cycle submit_sqlite (results_sqlite env') env db data =
      Some (sqlite_row (row_object (new_row (next_id db) (current_timestamp env) (insert_params data))))"
    by (intro sqlite_cycle)
  have q: "get_prop (sqlite_row (row_object (new_row (next_id db) (current_timestamp env)
        (insert_params data)))) ''q1_c'' = Json (q1_c_or_empty (map_of data ''q1_c''))"
    by (simp add: get_prop_sqlite_row map_of_row_object new_row_lookup parse_stored_q1_c[OF wf])
  show "\<exists>row. cycle submit_sqlite (results_sqlite env') env db data = Some row \<and>
         (\<forall>xs. map_of data ''q1_c'' = Some (JArr xs) \<longrightarrow> get_prop row ''q1_c'' = Json (JArr xs)) \<and>
         (map_of data ''q1_c'' = None \<longrightarrow> get_prop row ''q1_c'' = Json (JArr [])) \<and>
         (\<forall>s. map_of data ''q1_c'' = Some (JStr s) \<longrightarrow> s \<noteq> [] \<longrightarrow>
              get_prop row ''q1_c'' = Json (JStr s))"
    unfolding c by (simp add: q q1_c_or_empty_def)
next
  assume a: "status (sent (submit_mongo menv coll data)) = 201"
    "connect_fault menv' = None" "op_fault menv' = None"
    "find_sorted (db_after (submit_mongo menv coll data)) found"
  have q: "get_prop (processRow (stored_doc menv data)) ''q1_c'' = Json (wrap_q1_c (map_of data ''q1_c''))"
    by (simp add: get_prop_processRow get_prop_stored_doc)
  show "\<exists>row. cycle submit_mongo (\<lambda>c. results_mongo menv' c found) menv coll data = Some row \<and>
         cycle submit_mongo_guarded (\<lambda>c. results_mongo_guarded menv' c found) menv coll data = Some row \<and>
         (\<forall>xs. map_of data ''q1_c'' = Some (JArr xs) \<longrightarrow> get_prop row ''q1_c'' = Json (JArr xs)) \<and>
         (map_of data ''q1_c'' = None \<longrightarrow> get_prop row ''q1_c'' = Json (JArr [])) \<and>
         (\<forall>s. map_of data ''q1_c'' = Some (JStr s) \<longrightarrow> s \<noteq> [] \<longrightarrow>
              get_prop row ''q1_c'' = Json (JArr [JStr s]))"
    unfolding mongo_cycle[OF a] by (simp add: q wrap_q1_c_def)
qed

text \<open>
  C2. After a submit and fetch cycle \<^verbatim>\<open>q1_c\<close> is a list: the one-element list of the string
  when a single string was submitted, the submitted list when a list was, the empty list
  when it was omitted. The SQLite server departs from this for a single string. Its
  comments call \<^verbatim>\<open>q1_c\<close> an array, written as JSON text and parsed back into an array
  (server.js lines 52, 91 and 96), and both MongoDB servers wrap a single string,
  \<^verbatim>\<open>data.q1_c ? [data.q1_c] : []\<close>, under a comment that \<^verbatim>\<open>q1_c\<close> is to be an array
  always (server.js lines 180-181); but on the SQLite server
  \<^verbatim>\<open>JSON.stringify(data.q1_c || [])\<close> writes the string itself, and \<^verbatim>\<open>JSON.parse\<close> reads
  it back as a string. For the survey whose \<^verbatim>\<open>q1_c\<close> is the string \<^verbatim>\<open>"a"\<close> the SQLite
  server returns \<^verbatim>\<open>"a"\<close>, where both MongoDB servers return \<^verbatim>\<open>["a"]\<close>.
\<close>

theorem q1_c_scalar_not_wrapped:
  "map_of single_choice ''q1_c'' = Some (JStr ''a'') \<and>
   status (sent (submit_sqlite ok_senv empty_db single_choice)) = 201 \<and>
   fetched_field ''q1_c''
     (cycle submit_sqlite (results_sqlite ok_senv) ok_senv empty_db single_choice) = Json (JStr ''a'') \<and>
   fetched_field ''q1_c''
     (cycle submit_sqlite (results_sqlite ok_senv) ok_senv empty_db single_choice)
       \<noteq> Json (JArr [JStr ''a'']) \<and>
   fetched_field ''q1_c''
     (cycle submit_mongo (\<lambda>c. results_mongo ok_menv c [stored_doc ok_menv single_choice])
        ok_menv [] single_choice) = Json (JArr [JStr ''a'']) \<and>
   fetched_field ''q1_c''
     (cycle submit_mongo_guarded (\<lambda>c. results_mongo_guarded ok_menv c [stored_doc ok_menv single_choice])
        ok_menv [] single_choice) = Json (JArr [JStr ''a''])"
  by code_simp

subsection \<open>C3: the reading duration after a submit and fetch cycle\<close>

text \<open>
  C3, as amended. After a submission answered with 201 and a fetch that the store serves,
  the fetched record has no \<^verbatim>\<open>readingDuration\<close> key, and its \<^verbatim>\<open>finalReadingDuration\<close> is
  the submitted value: on the MongoDB servers for every submitted value, on the SQLite
  server for every submitted integer (the column is an \<^verbatim>\<open>INTEGER\<close> column).
\<close>

theorem duration_after_cycle:
  "(status (sent (submit_sqlite env db data)) = 201 \<longrightarrow> fault env' = None \<longrightarrow>
      (\<exists>row. cycle submit_sqlite (results_sqlite env') env db data = Some row \<and>
         map_of row ''readingDuration'' = None \<and>
         (\<forall>n. map_of data ''finalReadingDuration'' = Some (JNum n) \<longrightarrow>
              map_of row ''finalReadingDuration'' = Some (Json (JNum n))))) \<and>
   (status (sent (submit_mongo menv coll data)) = 201 \<longrightarrow>
    connect_fault menv' = None \<longrightarrow> op_fault menv' = None \<longrightarrow>
    find_sorted (db_after (submit_mongo menv coll data)) found \<longrightarrow>
      (\<exists>row. cycle submit_mongo (\<lambda>c. results_mongo menv' c found) menv coll data = Some row \<and>
         cycle submit_mongo_guarded (\<lambda>c. results_mongo_guarded menv' c found) menv coll data = Some row \<and>
         map_of row ''readingDuration'' = None \<and>
         (\<forall>v. map_of data ''finalReadingDuration'' = Some v \<longrightarrow>
              map_of row ''finalReadingDuration'' = Some (Json v))))"
proof (intro conjI impI)
  assume "status (sent (submit_sqlite env db data)) = 201" and "fault env' = None"
  then have c: "cycle submit_sqlite (results_sqlite env') env db data =
      Some (sqlite_row (row_object (new_row (next_id db) (current_timestamp env) (insert_params data))))"
    by (intro sqlite_cycle)
  show "\<exists>row. cycle submit_sqlite (results_sqlite env') env db data = Some row \<and>
         map_of row ''readingDuration'' = None \<and>
         (\<forall>n. map_of data ''finalReadingDuration'' = Some (JNum n) \<longrightarrow>
              map_of row ''finalReadingDuration'' = Some (Json (JNum n)))"
    unfolding c
    by (simp add: sqlite_row_def Let_def update_conv' delete_conv' map_of_row_object new_row_lookup)
next
  assume a: "status (sent (submit_mongo menv coll data)) = 201"
    "connect_fault menv' = None" "op_fault menv' = None"
    "find_sorted (db_after (submit_mongo menv coll data)) found"
  show "\<exists>row. cycle submit_mongo (\<lambda>c. results_mongo menv' c found) menv coll data = Some row \<and>
         cycle submit_mongo_guarded (\<lambda>c. results_mongo_guarded menv' c found) menv coll data = Some row \<and>
         map_of row ''readingDuration'' = None \<and>
         (\<forall>v. map_of data ''finalReadingDuration'' = Some v \<longrightarrow>
              map_of row ''finalReadingDuration'' = Some (Json v))"
    unfolding mongo_cycle[OF a]
    using get_prop_stored_doc(4)[of menv data]
    by (auto simp: processRow_def update_conv' delete_conv')
qed

theorem duration_after_cycle_witness:
  "fetched_field ''finalReadingDuration''
     (cycle submit_sqlite (results_sqlite ok_senv) ok_senv empty_db survey) = Json (JNum 42) \<and>
   fetched_field ''finalReadingDuration''
     (cycle submit_mongo (\<lambda>c. results_mongo ok_menv c [stored_doc ok_menv survey]) ok_menv [] survey)
     = Json (JNum 42)"
proof -
  have s: "map_of survey ''finalReadingDuration'' = Some (JNum 42)"
    by (simp add: survey_def)
  from duration_after_cycle[of ok_senv empty_db survey ok_senv ok_menv "[]" ok_menv
      "[stored_doc ok_menv survey]"] ex_sqlite_201 ex_mongo_201 ex_mongo_found ex_no_fault
  show ?thesis by (auto simp: fetched_field_def get_prop_def s)
qed

text \<open>
  The claim as first stated fails on the SQLite server for values that are not integers:
  the text \<^verbatim>\<open>"42"\<close> comes back as the number 42, the boolean \<^verbatim>\<open>true\<close> as the number 1.
\<close>

theorem duration_text_counterexample:
  "map_of duration_as_text ''finalReadingDuration'' = Some (JStr ''42'') \<and>
   fetched_field ''finalReadingDuration''
     (cycle submit_sqlite (results_sqlite ok_senv) ok_senv empty_db duration_as_text) = Json (JNum 42) \<and>
   map_of duration_as_flag ''finalReadingDuration'' = Some (JBool True) \<and>
   fetched_field ''finalReadingDuration''
     (cycle submit_sqlite (results_sqlite ok_senv) ok_senv empty_db duration_as_flag) = Json (JNum 1)"
  by code_simp

subsection \<open>C4: the order of the results\<close>

lemma created_ids_Cons:
  "created_ids (r # rs) = (case created r of None \<Rightarrow> created_ids rs | Some i \<Rightarrow> i # created_ids rs)"
  unfolding created_ids_def by (simp add: List.map_filter_simps)

lemma created_ids_Nil: "created_ids [] = []"
  by (simp add: created_ids_def List.map_filter_simps)

lemma run_Cons:
  "run h s ((e, data) # reqs) =
     (sent (h e s data) # fst (run h (db_after (h e s data)) reqs),
      snd (run h (db_after (h e s data)) reqs))"
  by (simp add: Let_def split: prod.splits)

lemma sqlite_step:
  "row_ids (map sqlite_row (select_all (db_after (submit_sqlite env db data)))) =
     rev (created_ids [sent (submit_sqlite env db data)]) @ row_ids (map sqlite_row (select_all db))"
proof (cases "run_insert env db (insert_params data)")
  case (Inl m)
  then show ?thesis
    by (simp add: submit_sqlite_def created_ids_Cons created_ids_Nil created_def)
next
  case (Inr p)
  obtain i db' where p: "p = (i, db')" by (cases p)
  have s: "select_all db' = row_object (new_row i (current_timestamp env) (insert_params data)) # select_all db"
    using Inr p by (intro select_all_after_insert) simp
  have "get_prop (sqlite_row (row_object (new_row i (current_timestamp env) (insert_params data)))) ''id''
          = Json (JNum i)"
    by (simp add: get_prop_sqlite_row map_of_row_object new_row_lookup)
  then show ?thesis using Inr p s
    by (simp add: submit_sqlite_def created_ids_Cons created_ids_Nil created_submitted row_ids_def)
qed

lemma sqlite_run_ids:
  "row_ids (map sqlite_row (select_all (snd (run submit_sqlite db reqs)))) =
     rev (created_ids (fst (run submit_sqlite db reqs))) @ row_ids (map sqlite_row (select_all db))"
proof (induction reqs arbitrary: db)
  case Nil
  then show ?case by (simp add: created_ids_Nil)
next
  case (Cons r reqs)
  obtain e d where r: "r = (e, d)" by (cases r)
  let ?out = "submit_sqlite e db d"
  let ?rest = "run submit_sqlite (db_after ?out) reqs"
  have c: "created_ids (sent ?out # fst ?rest) = created_ids [sent ?out] @ created_ids (fst ?rest)"
    by (simp add: created_ids_Cons created_ids_Nil split: option.splits)
  have "row_ids (map sqlite_row (select_all (snd (run submit_sqlite db (r # reqs))))) =
      row_ids (map sqlite_row (select_all (snd ?rest)))"
    by (simp only: r run_Cons snd_conv)
  also have "\<dots> = rev (created_ids (fst ?rest)) @ row_ids (map sqlite_row (select_all (db_after ?out)))"
    by (rule Cons.IH)
  also have "\<dots> = rev (created_ids (fst ?rest)) @ rev (created_ids [sent ?out])
      @ row_ids (map sqlite_row (select_all db))"
    by (simp only: sqlite_step)
  also have "\<dots> = rev (created_ids (sent ?out # fst ?rest)) @ row_ids (map sqlite_row (select_all db))"
    by (simp only: c rev_append append_assoc)
  also have "sent ?out # fst ?rest = fst (run submit_sqlite db (r # reqs))"
    by (simp only: r run_Cons fst_conv)
  finally show ?case .
qed

lemma run_guarded: "run submit_mongo_guarded coll reqs = run submit_mongo coll reqs"
proof (induction reqs arbitrary: coll)
  case Nil
  then show ?case by simp
next
  case (Cons r reqs)
  obtain e d where r: "r = (e, d)" by (cases r)
  show ?case unfolding r run_Cons Cons.IH submit_mongo_guarded_sent ..
qed

lemma mongo_step:
  "(status (sent (submit_mongo env coll data)) = 201 \<and>
      created (sent (submit_mongo env coll data)) = Some (get_prop (stored_doc env data) ''_id'') \<and>
      db_after (submit_mongo env coll data) = coll @ [stored_doc env data]) \<or>
   (created (sent (submit_mongo env coll data)) = None \<and>
      db_after (submit_mongo env coll data) = coll)"
proof (cases "status (sent (submit_mongo env coll data)) = 201")
  case True
  then have c: "connect_fault env = None"
    and ins: "insertOne env coll (docToInsert (now env) data) =
       Inr (get_prop (stored_doc env data) ''_id'', coll @ [stored_doc env data])"
    by (simp_all add: submit_mongo_201)
  then show ?thesis using True
    by (simp add: submit_mongo_def mongo_submit_try_def created_submitted)
next
  case False
  have "created (sent (submit_mongo env coll data)) = None"
    using False by (simp add: created_def)
  moreover have "db_after (submit_mongo env coll data) = coll"
  proof (cases "connect_fault env")
    case (Some m)
    then show ?thesis by (simp add: submit_mongo_def mongo_submit_try_def)
  next
    case None
    show ?thesis
    proof (cases "insertOne env coll (docToInsert (now env) data)")
      case (Inl m)
      then show ?thesis using None by (simp add: submit_mongo_def mongo_submit_try_def)
    next
      case (Inr p)
      then have "status (sent (submit_mongo env coll data)) = 201"
        using None by (cases p) (simp add: submit_mongo_def mongo_submit_try_def)
      with False show ?thesis by simp
    qed
  qed
  ultimately show ?thesis by simp
qed

lemma mongo_run_ids:
  "map (\<lambda>d. get_prop d ''_id'') (snd (run submit_mongo coll reqs)) =
     map (\<lambda>d. get_prop d ''_id'') coll @ created_ids (fst (run submit_mongo coll reqs))"
proof (induction reqs arbitrary: coll)
  case Nil
  then show ?case by (simp add: created_ids_Nil)
next
  case (Cons r reqs)
  obtain e d where r: "r = (e, d)" by (cases r)
  from mongo_step[of e coll d] show ?case
    unfolding r run_Cons fst_conv snd_conv Cons.IH
    by (auto simp: created_ids_Cons)
qed

lemma ts_key_stored_doc: "ts_key (stored_doc env data) = Some (now env)"
  by (simp add: ts_key_def get_prop_stored_doc)

lemma mongo_run_sorted:
  assumes "sorted_wrt (<) (map (\<lambda>r. now (fst r)) reqs)"
    and "\<forall>d \<in> set coll. \<forall>r \<in> set reqs. ts_key d < Some (now (fst r))"
    and "sorted_wrt (\<lambda>a b. ts_key a < ts_key b) coll"
  shows "sorted_wrt (\<lambda>a b. ts_key a < ts_key b) (snd (run submit_mongo coll reqs))"
  using assms
proof (induction reqs arbitrary: coll)
  case Nil
  then show ?case by simp
next
  case (Cons r reqs)
  obtain e d where r: "r = (e, d)" by (cases r)
  let ?coll = "db_after (submit_mongo e coll d)"
  have later: "\<forall>r' \<in> set reqs. now e < now (fst r')"
    using Cons.prems(1) by (simp add: r)
  have s: "sorted_wrt (<) (map (\<lambda>r. now (fst r)) reqs)"
    using Cons.prems(1) by simp
  have c: "?coll = coll @ [stored_doc e d] \<or> ?coll = coll"
    using mongo_step[of e coll d] by auto
  have old: "\<forall>x \<in> set coll. ts_key x < Some (now e)"
    and old': "\<forall>x \<in> set coll. \<forall>r' \<in> set reqs. ts_key x < Some (now (fst r'))"
    using Cons.prems(2) by (simp_all add: r)
  have b: "\<forall>x \<in> set ?coll. \<forall>r' \<in> set reqs. ts_key x < Some (now (fst r'))"
  proof (intro ballI)
    fix x r' assume x: "x \<in> set ?coll" and r': "r' \<in> set reqs"
    from c x have "x \<in> set coll \<or> x = stored_doc e d" by auto
    then show "ts_key x < Some (now (fst r'))"
    proof
      assume "x \<in> set coll"
      then show ?thesis using old' r' by blast
    next
      assume "x = stored_doc e d"
      then show ?thesis using later r' by (simp add: ts_key_stored_doc)
    qed
  qed
  have o: "sorted_wrt (\<lambda>a b. ts_key a < ts_key b) ?coll"
  proof (cases "?coll = coll")
    case True
    then show ?thesis using Cons.prems(3) by simp
  next
    case False
    then have "?coll = coll @ [stored_doc e d]" using c by blast
    then show ?thesis using Cons.prems(3) old by (simp add: sorted_wrt_append ts_key_stored_doc)
  qed
  show ?case unfolding r run_Cons snd_conv by (rule Cons.IH[OF s b o])
qed

lemma descending_unique:
  fixes f :: "'a \<Rightarrow> 'b :: linorder"
  assumes "sorted_wrt (\<lambda>a b. f a < f b) xs" and "mset ys = mset xs"
    and "sorted_wrt (\<lambda>a b. f b \<le> f a) ys"
  shows "ys = rev xs"
proof -
  have sx: "sorted_wrt (<) (map f xs)" using assms(1) by (simp add: sorted_wrt_map)
  then have "sorted (map f xs)" and dx: "distinct (map f xs)"
    by (simp_all add: strict_sorted_iff)
  have "sorted (map f (rev ys))"
    using assms(3) by (simp add: sorted_wrt_map sorted_wrt_rev flip: rev_map)
  moreover have "mset (map f (rev ys)) = mset (map f xs)"
    by (simp add: assms(2))
  ultimately have "sort (map f xs) = map f (rev ys)"
    by (intro properties_for_sort)
  then have m: "map f (rev ys) = map f xs"
    using \<open>sorted (map f xs)\<close> by (simp add: sorted_sort_id)
  have "set ys = set xs" using assms(2) by (rule mset_eq_setD)
  then have "inj_on f (set (rev ys) \<union> set xs)"
    using dx by (simp add: distinct_map)
  then have "rev ys = xs" using m by (simp add: inj_on_map_eq_map)
  then show ?thesis by (metis rev_rev_ident)
qed

lemma ts_key_processRow: "ts_key (processRow d) = ts_key d"
  by (simp add: ts_key_def get_prop_processRow)

lemma row_ids_processRow: "row_ids (map processRow found) = map (\<lambda>d. get_prop d ''_id'') found"
  by (simp add: row_ids_def get_prop_processRow)

text \<open>
  C4, as amended. After any sequence of submissions to an empty store, the results
  endpoint returns the records of exactly the submissions that were answered with 201. On the
  SQLite server they come newest first: the ids are those of the 201 responses in reverse.
  On the MongoDB servers they come by timestamp, latest first, records with the same
  timestamp in the order the store chooses; they come newest first whenever the server's
  clock advanced from each submission to the next.
\<close>

theorem results_newest_first:
  "(fault env = None \<longrightarrow>
      row_ids (fetched_rows (sent (results_sqlite env (snd (run submit_sqlite empty_db reqs)))))
        = rev (created_ids (fst (run submit_sqlite empty_db reqs)))) \<and>
   (connect_fault menv = None \<longrightarrow> op_fault menv = None \<longrightarrow>
    find_sorted (snd (run submit_mongo [] mreqs)) found \<longrightarrow>
      run submit_mongo_guarded [] mreqs = run submit_mongo [] mreqs \<and>
      fetched_rows (sent (results_mongo menv (snd (run submit_mongo [] mreqs)) found))
        = map processRow found \<and>
      fetched_rows (sent (results_mongo_guarded menv (snd (run submit_mongo [] mreqs)) found))
        = map processRow found \<and>
      mset (row_ids (map processRow found)) = mset (created_ids (fst (run submit_mongo [] mreqs))) \<and>
      sorted_wrt (\<lambda>a b. ts_key b \<le> ts_key a) (map processRow found) \<and>
      (sorted_wrt (<) (map (\<lambda>r. now (fst r)) mreqs) \<longrightarrow>
         row_ids (map processRow found) = rev (created_ids (fst (run submit_mongo [] mreqs)))))"
proof (intro conjI impI)
  assume "fault env = None"
  then have "fetched_rows (sent (results_sqlite env db)) = map sqlite_row (select_all db)" for db
    by (simp add: results_sqlite_def fetched_rows_def)
  then show "row_ids (fetched_rows (sent (results_sqlite env (snd (run submit_sqlite empty_db reqs)))))
        = rev (created_ids (fst (run submit_sqlite empty_db reqs)))"
    using sqlite_run_ids[of empty_db reqs]
    by (simp add: select_all_def empty_db_def row_ids_def)
next
  assume e: "connect_fault menv = None" "op_fault menv = None"
    and f: "find_sorted (snd (run submit_mongo [] mreqs)) found"
  let ?coll = "snd (run submit_mongo [] mreqs)"
  show "run submit_mongo_guarded [] mreqs = run submit_mongo [] mreqs"
    by (rule run_guarded)
  show "fetched_rows (sent (results_mongo menv ?coll found)) = map processRow found"
    and "fetched_rows (sent (results_mongo_guarded menv ?coll found)) = map processRow found"
    using e by (simp_all add: results_mongo_def results_mongo_guarded_def mongo_results_try_def
        fetched_rows_def)
  have m: "mset found = mset ?coll" and s: "sorted_wrt (\<lambda>a b. ts_key b \<le> ts_key a) found"
    using f by (simp_all add: find_sorted_def)
  have ids: "map (\<lambda>d. get_prop d ''_id'') ?coll = created_ids (fst (run submit_mongo [] mreqs))"
    using mongo_run_ids[of "[]" mreqs] by simp
  have "mset (map (\<lambda>d. get_prop d ''_id'') found) = mset (map (\<lambda>d. get_prop d ''_id'') ?coll)"
    by (simp add: m)
  then show "mset (row_ids (map processRow found)) = mset (created_ids (fst (run submit_mongo [] mreqs)))"
    by (simp add: row_ids_processRow ids)
  show "sorted_wrt (\<lambda>a b. ts_key b \<le> ts_key a) (map processRow found)"
    using s by (simp add: sorted_wrt_map ts_key_processRow)
  assume c: "sorted_wrt (<) (map (\<lambda>r. now (fst r)) mreqs)"
  have "sorted_wrt (\<lambda>a b. ts_key a < ts_key b) ?coll"
    by (rule mongo_run_sorted[OF c]) simp_all
  then have "found = rev ?coll"
    using m s by (rule descending_unique)
  then have "row_ids (map processRow found) = rev (map (\<lambda>d. get_prop d ''_id'') ?coll)"
    by (simp add: row_ids_processRow rev_map)
  then show "row_ids (map processRow found) = rev (created_ids (fst (run submit_mongo [] mreqs)))"
    by (simp only: ids)
qed

lemma ex_created_sqlite:
  "created_ids (fst (run submit_sqlite empty_db three_sqlite_submissions)) = [Json (JNum 1), Json (JNum 2)]"
  by code_simp

lemma ex_created_mongo:
  "created_ids (fst (run submit_mongo [] two_mongo_submissions)) =
     [ObjectId ''65e1a0f2c3b4d5e6f7a8b9c0'', ObjectId ''65e1a12ec3b4d5e6f7a8b9c1'']"
  by code_simp

lemma ex_found_mongo:
  "find_sorted (snd (run submit_mongo [] two_mongo_submissions))
     (rev (snd (run submit_mongo [] two_mongo_submissions)))"
proof -
  have "sorted_wrt (\<lambda>a b. ts_key b \<le> ts_key a) (rev (snd (run submit_mongo [] two_mongo_submissions)))"
    by code_simp
  then show ?thesis by (simp add: find_sorted_def)
qed

theorem results_newest_first_witness:
  "row_ids (fetched_rows (sent (results_sqlite ok_senv
       (snd (run submit_sqlite empty_db three_sqlite_submissions)))))
     = [Json (JNum 2), Json (JNum 1)] \<and>
   row_ids (fetched_rows (sent (results_mongo ok_menv (snd (run submit_mongo [] two_mongo_submissions))
       (rev (snd (run submit_mongo [] two_mongo_submissions))))))
     = [ObjectId ''65e1a12ec3b4d5e6f7a8b9c1'', ObjectId ''65e1a0f2c3b4d5e6f7a8b9c0'']"
proof -
  have c: "sorted_wrt (<) (map (\<lambda>r. now (fst r)) two_mongo_submissions)"
    by (simp add: two_mongo_submissions_def ok_menv_def later_menv_def)
  from results_newest_first[of ok_senv three_sqlite_submissions ok_menv two_mongo_submissions
      "rev (snd (run submit_mongo [] two_mongo_submissions))"]
    ex_no_fault ex_found_mongo c
  show ?thesis by (simp add: ex_created_sqlite ex_created_mongo)
qed

text \<open>
  The claim as first stated fails on the MongoDB servers. Two submissions stamped with the
  same millisecond may be returned oldest first: that order is sorted by timestamp. And when
  the clock is set back between two submissions, oldest first is the only sorted order.
\<close>

theorem same_millisecond_counterexample:
  "created_ids (fst (run submit_mongo [] same_ms_submissions)) =
     [ObjectId ''65e1a0f2c3b4d5e6f7a8b9c0'', ObjectId ''65e1a0f2c3b4d5e6f7a8b9c1''] \<and>
   find_sorted (snd (run submit_mongo [] same_ms_submissions))
     (snd (run submit_mongo [] same_ms_submissions)) \<and>
   row_ids (fetched_rows (sent (results_mongo ok_menv (snd (run submit_mongo [] same_ms_submissions))
       (snd (run submit_mongo [] same_ms_submissions)))))
     = [ObjectId ''65e1a0f2c3b4d5e6f7a8b9c0'', ObjectId ''65e1a0f2c3b4d5e6f7a8b9c1''] \<and>
   created_ids (fst (run submit_mongo [] clock_back_submissions)) =
     [ObjectId ''65e1a0f2c3b4d5e6f7a8b9c0'', ObjectId ''65e1a0f1c3b4d5e6f7a8b9c1''] \<and>
   find_sorted (snd (run submit_mongo [] clock_back_submissions))
     (snd (run submit_mongo [] clock_back_submissions)) \<and>
   \<not> find_sorted (snd (run submit_mongo [] clock_back_submissions))
     (rev (snd (run submit_mongo [] clock_back_submissions)))"
proof -
  have a: "created_ids (fst (run submit_mongo [] same_ms_submissions)) =
     [ObjectId ''65e1a0f2c3b4d5e6f7a8b9c0'', ObjectId ''65e1a0f2c3b4d5e6f7a8b9c1'']"
    by code_simp
  have b: "sorted_wrt (\<lambda>a b. ts_key b \<le> ts_key a) (snd (run submit_mongo [] same_ms_submissions))"
    by code_simp
  have c: "row_ids (fetched_rows (sent (results_mongo ok_menv (snd (run submit_mongo [] same_ms_submissions))
       (snd (run submit_mongo [] same_ms_submissions)))))
     = [ObjectId ''65e1a0f2c3b4d5e6f7a8b9c0'', ObjectId ''65e1a0f2c3b4d5e6f7a8b9c1'']"
    by code_simp
  have d: "created_ids (fst (run submit_mongo [] clock_back_submissions)) =
     [ObjectId ''65e1a0f2c3b4d5e6f7a8b9c0'', ObjectId ''65e1a0f1c3b4d5e6f7a8b9c1'']"
    by code_simp
  have e: "sorted_wrt (\<lambda>a b. ts_key b \<le> ts_key a) (snd (run submit_mongo [] clock_back_submissions))"
    by code_simp
  have f: "\<not> sorted_wrt (\<lambda>a b. ts_key b \<le> ts_key a) (rev (snd (run submit_mongo [] clock_back_submissions)))"
    by code_simp
  show ?thesis using a b c d e f by (simp add: find_sorted_def)
qed

subsection \<open>C5: a failing store is answered with 500\<close>

lemma occurs_in_self: "occurs_in m m"
  by (cases m) simp_all

lemma occurs_in_append: "occurs_in m (p @ m)"
  by (induction p) (simp_all add: occurs_in_self)

lemma message_of_message_body: "message_of \<lparr>status = s, body = message_body m\<rparr> = m"
  by (simp add: message_of_def message_body_def get_prop_def)

text \<open>
  C5, as amended. Whenever the store reports a failure during submit or fetch, the
  endpoint answers with status 500 and the store is left as it was. On the MongoDB servers
  the message of the body is a fixed prefix followed by the store's own message. On the
  SQLite server the message is a fixed text and the store's message is only logged. No
  error leaves a handler of the SQLite server or of the MongoDB server of server.js; none
  leaves a handler of part_000 when closing the connection succeeds.
\<close>

theorem storage_failure_500:
  "(run_insert env db (insert_params data) = Inl m \<longrightarrow>
      submit_sqlite env db data =
        \<lparr>sent = \<lparr>status = 500, body = message_body ''Server error during submission.''\<rparr>,
         unhandled = None, db_after = db\<rparr>) \<and>
   (fault env = Some m \<longrightarrow>
      results_sqlite env db =
        \<lparr>sent = \<lparr>status = 500, body = message_body ''Server error fetching results.''\<rparr>,
         unhandled = None, db_after = db\<rparr>) \<and>
   (connect_fault menv = Some m \<or>
    connect_fault menv = None \<and> insertOne menv coll (docToInsert (now menv) data) = Inl m \<longrightarrow>
      sent (submit_mongo menv coll data) =
        \<lparr>status = 500, body = message_body (''Server error during submission: '' @ m)\<rparr> \<and>
      sent (submit_mongo_guarded menv coll data) = sent (submit_mongo menv coll data) \<and>
      occurs_in m (message_of (sent (submit_mongo menv coll data))) \<and>
      db_after (submit_mongo menv coll data) = coll \<and>
      db_after (submit_mongo_guarded menv coll data) = coll) \<and>
   (connect_fault menv = Some m \<or> connect_fault menv = None \<and> op_fault menv = Some m \<longrightarrow>
      sent (results_mongo menv coll found) =
        \<lparr>status = 500, body = message_body (''Server error fetching results: '' @ m)\<rparr> \<and>
      sent (results_mongo_guarded menv coll found) = sent (results_mongo menv coll found) \<and>
      occurs_in m (message_of (sent (results_mongo menv coll found)))) \<and>
   unhandled (submit_mongo_guarded menv coll data) = None \<and>
   unhandled (results_mongo_guarded menv coll found) = None \<and>
   (close_fault menv = None \<longrightarrow>
      unhandled (submit_mongo menv coll data) = None \<and>
      unhandled (results_mongo menv coll found) = None)"
proof (intro conjI impI)
  assume "run_insert env db (insert_params data) = Inl m"
  then show "submit_sqlite env db data =
        \<lparr>sent = \<lparr>status = 500, body = message_body ''Server error during submission.''\<rparr>,
         unhandled = None, db_after = db\<rparr>"
    by (simp add: submit_sqlite_def)
next
  assume "fault env = Some m"
  then show "results_sqlite env db =
        \<lparr>sent = \<lparr>status = 500, body = message_body ''Server error fetching results.''\<rparr>,
         unhandled = None, db_after = db\<rparr>"
    by (simp add: results_sqlite_def)
next
  assume a: "connect_fault menv = Some m \<or>
    connect_fault menv = None \<and> insertOne menv coll (docToInsert (now menv) data) = Inl m"
  then have t: "mongo_submit_try menv coll data =
      (\<lparr>status = 500, body = message_body (''Server error during submission: '' @ m)\<rparr>, coll)"
    by (auto simp: mongo_submit_try_def)
  show s: "sent (submit_mongo menv coll data) =
        \<lparr>status = 500, body = message_body (''Server error during submission: '' @ m)\<rparr>"
    by (simp add: submit_mongo_def t)
  show "sent (submit_mongo_guarded menv coll data) = sent (submit_mongo menv coll data)"
    by (simp add: submit_mongo_def submit_mongo_guarded_def t)
  show "occurs_in m (message_of (sent (submit_mongo menv coll data)))"
    unfolding s message_of_message_body by (rule occurs_in_append)
  show "db_after (submit_mongo menv coll data) = coll"
    and "db_after (submit_mongo_guarded menv coll data) = coll"
    by (simp_all add: submit_mongo_def submit_mongo_guarded_def t)
next
  assume a: "connect_fault menv = Some m \<or> connect_fault menv = None \<and> op_fault menv = Some m"
  then have t: "mongo_results_try menv found =
      \<lparr>status = 500, body = message_body (''Server error fetching results: '' @ m)\<rparr>"
    by (auto simp: mongo_results_try_def)
  show s: "sent (results_mongo menv coll found) =
        \<lparr>status = 500, body = message_body (''Server error fetching results: '' @ m)\<rparr>"
    by (simp add: results_mongo_def t)
  show "sent (results_mongo_guarded menv coll found) = sent (results_mongo menv coll found)"
    by (simp add: results_mongo_def results_mongo_guarded_def)
  show "occurs_in m (message_of (sent (results_mongo menv coll found)))"
    unfolding s message_of_message_body by (rule occurs_in_append)
next
  show "unhandled (submit_mongo_guarded menv coll data) = None"
    by (simp add: submit_mongo_guarded_def split: prod.splits)
  show "unhandled (results_mongo_guarded menv coll found) = None"
    by (simp add: results_mongo_guarded_def)
next
  assume "close_fault menv = None"
  then show "unhandled (submit_mongo menv coll data) = None"
    and "unhandled (results_mongo menv coll found) = None"
    by (simp_all add: submit_mongo_def results_mongo_def split: prod.splits)
qed

theorem storage_failure_500_witness:
  "status (sent (results_sqlite broken_senv empty_db)) = 500 \<and>
   message_of (sent (submit_mongo broken_menv [] survey)) =
     ''Server error during submission: connection pool closed'' \<and>
   message_of (sent (results_mongo broken_menv [] [])) =
     ''Server error fetching results: connection pool closed'' \<and>
   unhandled (submit_mongo broken_menv [] survey) = None"
proof -
  have a: "fault broken_senv = Some ''SQLITE_IOERR: disk I/O error''"
    by (simp add: broken_senv_def)
  have b: "connect_fault broken_menv = None" "op_fault broken_menv = Some ''connection pool closed''"
    "close_fault broken_menv = None"
    by (simp_all add: broken_menv_def)
  have c: "insertOne broken_menv [] (docToInsert (now broken_menv) survey) = Inl ''connection pool closed''"
    by (simp add: insertOne_def b)
  from storage_failure_500[of broken_senv empty_db survey "''SQLITE_IOERR: disk I/O error''"]
    storage_failure_500[of broken_senv empty_db survey "''connection pool closed''" broken_menv "[]" "[]"]
    a b c
  show ?thesis by (simp add: message_of_message_body)
qed

text \<open>
  The claim as first stated fails on the SQLite server: the body of the 500 response does not
  contain the message of the failure.
\<close>

theorem failure_message_counterexample:
  "fault broken_senv = Some ''SQLITE_IOERR: disk I/O error'' \<and>
   status (sent (submit_sqlite broken_senv empty_db survey)) = 500 \<and>
   message_of (sent (submit_sqlite broken_senv empty_db survey)) = ''Server error during submission.'' \<and>
   \<not> occurs_in ''SQLITE_IOERR: disk I/O error''
        (message_of (sent (submit_sqlite broken_senv empty_db survey)))"
  by code_simp

subsection \<open>C6: the timestamp is the server's\<close>








subsection \<open>C7: the shape of a returned record\<close>














subsection \<open>C8: a stored submission is answered with 201 and the new id\<close>



subsection \<open>C9: what a submission needs to be stored\<close>







subsection \<open>C10: a row whose q1_c is not JSON text\<close>


lemma set_select_all: "set (select_all db) = row_object ` set (table_rows db)"
  by (simp add: select_all_def)



end
